theory Spec2Isabelle
  imports Main
begin

section \<open>JavaScript values\<close>

text \<open>
  The values that flow through \<^verbatim>\<open>candicsv.js\<close> and the table functions of
  \<^verbatim>\<open>candiutil.js\<close>. A number is an integer (no NaN, no fractions, magnitude below
  2^53); an array is dense and carries no named properties (a hole reads as
  \<^verbatim>\<open>undefined\<close> in every loop of the source, so it is written \<open>VUndef\<close>); an object is
  the list of its own enumerable properties in the order \<^verbatim>\<open>Object.keys\<close> gives them; its
  prototype is \<^verbatim>\<open>Object.prototype\<close>.
\<close>

datatype jsval =
    VUndef
  | VNull
  | VBool bool
  | VNum int
  | VStr string
  | VArr "jsval list"
  | VObj "(string \<times> jsval) list"

text \<open>
  What the source can throw, and the process exit of \<^verbatim>\<open>putDataInObject\<close>.
  \<open>NotModelled\<close> stands for the few steps of the runtime this model does not follow:
  replacing the prototype of a record, and assigning a property to an array or to a
  function every object inherits.
\<close>

datatype js_error =
    TypeError
  | ReferenceError
  | SyntaxError
  | ProcessExit
  | ExpectedObject
  | ExpectedArray
  | InputLength nat nat
  | CouldNotFindHeader string
  | CannotAddObjectToCell
  | NotModelled

text \<open>\<^verbatim>\<open>if (v)\<close>, \<^verbatim>\<open>!v\<close>, \<^verbatim>\<open>while (v)\<close>.\<close>

fun truthy :: "jsval \<Rightarrow> bool" where
  "truthy VUndef = False"
| "truthy VNull = False"
| "truthy (VBool b) = b"
| "truthy (VNum n) = (n \<noteq> 0)"
| "truthy (VStr s) = (s \<noteq> [])"
| "truthy (VArr xs) = True"
| "truthy (VObj kvs) = True"

text \<open>\<^verbatim>\<open>Array.isArray(v)\<close>.\<close>

fun isArray :: "jsval \<Rightarrow> bool" where
  "isArray (VArr xs) = True"
| "isArray v = False"

text \<open>\<^verbatim>\<open>typeof v === "object"\<close>: objects, arrays and \<^verbatim>\<open>null\<close>.\<close>

fun typeofObject :: "jsval \<Rightarrow> bool" where
  "typeofObject VNull = True"
| "typeofObject (VArr xs) = True"
| "typeofObject (VObj kvs) = True"
| "typeofObject v = False"

text \<open>\<^verbatim>\<open>xs[i]\<close>: reading past the end gives \<^verbatim>\<open>undefined\<close>.\<close>

definition js_get :: "jsval list \<Rightarrow> nat \<Rightarrow> jsval" where
  "js_get xs i = (if i < length xs then xs ! i else VUndef)"

text \<open>\<^verbatim>\<open>xs[i] = v\<close>: writing past the end extends the array.\<close>

definition js_set :: "jsval list \<Rightarrow> nat \<Rightarrow> jsval \<Rightarrow> jsval list" where
  "js_set xs i v =
     (if i < length xs then xs[i := v]
      else xs @ replicate (i - length xs) VUndef @ [v])"

text \<open>Decimal digits of a number, for \<^verbatim>\<open>text += data\<close> and for the keys of an array.\<close>

function show_nat :: "nat \<Rightarrow> string" where
  "show_nat n =
     (if n < 10 then [''0123456789'' ! n]
      else show_nat (n div 10) @ [''0123456789'' ! (n mod 10)])"
  by pat_completeness auto
termination
  by (relation "measure id") auto

definition show_int :: "int \<Rightarrow> string" where
  "show_int i = (if i < 0 then CHR ''-'' # show_nat (nat (- i)) else show_nat (nat i))"

text \<open>\<^verbatim>\<open>parts.join(sep)\<close> on strings.\<close>

fun join :: "string \<Rightarrow> string list \<Rightarrow> string" where
  "join sep [] = []"
| "join sep [x] = x"
| "join sep (x # y # ys) = x @ sep @ join sep (y # ys)"

text \<open>
  Whether \<^verbatim>\<open>"" + v\<close> gives a string at all. An object with an own property
  \<^verbatim>\<open>toString\<close> (no function: the model has none) cannot be converted, and the
  concatenation throws a type error; so does an array with such an element.
\<close>

fun printable :: "jsval \<Rightarrow> bool" where
  "printable (VObj kvs) = (''toString'' \<notin> fst ` set kvs)"
| "printable (VArr xs) = list_all (\<lambda>x. x = VUndef \<or> x = VNull \<or> printable x) xs"
| "printable v = True"

text \<open>
  \<^verbatim>\<open>"" + v\<close> for such a value: the string it is concatenated as. An array joins its
  elements with a comma, \<^verbatim>\<open>null\<close> and \<^verbatim>\<open>undefined\<close> elements as the empty string.
\<close>

fun toString :: "jsval \<Rightarrow> string" where
  "toString VUndef = ''undefined''"
| "toString VNull = ''null''"
| "toString (VBool b) = (if b then ''true'' else ''false'')"
| "toString (VNum n) = show_int n"
| "toString (VStr s) = s"
| "toString (VArr xs) =
     join '',''
       (map (\<lambda>x. if x = VUndef \<or> x = VNull then [] else toString x) xs)"
| "toString (VObj kvs) = ''[object Object]''"

section \<open>CSVEntry\<close>

text \<open>
  \<^verbatim>\<open>class CSVEntry { headers; data = []; ... }\<close>. \<open>data_m1\<close> is the property
  \<^verbatim>\<open>data[-1]\<close>, which \<^verbatim>\<open>add\<close> reads and writes when \<^verbatim>\<open>indexOf\<close> finds no header:
  it is not an element of the array.
\<close>

record csventry =
  headers :: "string list"
  data :: "jsval list"
  data_m1 :: jsval

text \<open>
  \<^verbatim>\<open>new CSVEntry(headersIn, dataIn = null)\<close>: a falsy \<^verbatim>\<open>dataIn\<close> leaves the entry
  empty; anything else must be an array as long as the headers.
\<close>

definition CSVEntry_new :: "string list \<Rightarrow> jsval \<Rightarrow> js_error + csventry" where
  "CSVEntry_new headersIn dataIn =
     (if \<not> truthy dataIn
      then Inr \<lparr>headers = headersIn, data = [], data_m1 = VUndef\<rparr>
      else (case dataIn of
              VArr xs \<Rightarrow>
                (if length xs \<noteq> length headersIn
                 then Inl (InputLength (length xs) (length headersIn))
                 else Inr \<lparr>headers = headersIn, data = xs, data_m1 = VUndef\<rparr>)
            | _ \<Rightarrow> Inl ExpectedArray))"

text \<open>\<^verbatim>\<open>Array.prototype.indexOf\<close>: the first position, or \<open>None\<close> for -1.\<close>

fun array_indexOf :: "string list \<Rightarrow> string \<Rightarrow> nat option" where
  "array_indexOf [] h = None"
| "array_indexOf (x # xs) h =
     (if x = h then Some 0 else map_option Suc (array_indexOf xs h))"

text \<open>
  \<^verbatim>\<open>indexOf(header)\<close>: the guard \<^verbatim>\<open>!index && index !== 0\<close> is false for every number
  \<^verbatim>\<open>indexOf\<close> returns, -1 included, so the method never throws.
\<close>

definition indexOf :: "csventry \<Rightarrow> string \<Rightarrow> nat option" where
  "indexOf e header = array_indexOf (headers e) header"

definition data_at :: "csventry \<Rightarrow> nat option \<Rightarrow> jsval" where
  "data_at e index = (case index of None \<Rightarrow> data_m1 e | Some i \<Rightarrow> js_get (data e) i)"

definition data_put :: "csventry \<Rightarrow> nat option \<Rightarrow> jsval \<Rightarrow> csventry" where
  "data_put e index v =
     (case index of
        None \<Rightarrow> e\<lparr>data_m1 := v\<rparr>
      | Some i \<Rightarrow> e\<lparr>data := js_set (data e) i v\<rparr>)"

text \<open>\<^verbatim>\<open>get(header)\<close>.\<close>

definition get :: "csventry \<Rightarrow> string \<Rightarrow> jsval" where
  "get e header = data_at e (indexOf e header)"

text \<open>\<^verbatim>\<open>add(header, value)\<close>.\<close>

definition add :: "csventry \<Rightarrow> string \<Rightarrow> jsval \<Rightarrow> js_error + csventry" where
  "add e header v =
     (if typeofObject v \<and> \<not> isArray v then Inl CannotAddObjectToCell
      else
        (let index = indexOf e header;
             old = data_at e index
         in if truthy old
            then (case old of
                    VArr xs \<Rightarrow> Inr (data_put e index (VArr (xs @ [v])))
                  | _ \<Rightarrow> Inr (data_put e index (VArr [old, v])))
            else Inr (data_put e index v)))"

subsection \<open>getOutputRows\<close>

text \<open>The first loop: the longest array among the cells, at least 1.\<close>

fun longestOf :: "nat \<Rightarrow> jsval list \<Rightarrow> nat" where
  "longestOf longest [] = longest"
| "longestOf longest (row # rest) =
     (case row of
        VArr xs \<Rightarrow> longestOf (if length xs > longest then length xs else longest) rest
      | _ \<Rightarrow> longestOf longest rest)"

text \<open>
  \<^verbatim>\<open>while (output[index][col]) index++\<close>: past the last row \<^verbatim>\<open>output[index]\<close> is
  \<^verbatim>\<open>undefined\<close> and reading its property throws.
\<close>

function findSlot :: "jsval list list \<Rightarrow> nat \<Rightarrow> nat \<Rightarrow> js_error + nat" where
  "findSlot output col index =
     (if index < length output
      then (if truthy (js_get (output ! index) col)
            then findSlot output col (Suc index)
            else Inr index)
      else Inl TypeError)"
  by pat_completeness auto
termination
  by (relation "measure (\<lambda>(output, col, index). length output - index)") auto

text \<open>The loop over the elements of one array cell.\<close>

fun placeList :: "jsval list list \<Rightarrow> nat \<Rightarrow> jsval list \<Rightarrow> js_error + jsval list list" where
  "placeList output col [] = Inr output"
| "placeList output col (v # vs) =
     (case findSlot output col 0 of
        Inl err \<Rightarrow> Inl err
      | Inr index \<Rightarrow>
          placeList (output[index := js_set (output ! index) col v]) col vs)"

text \<open>The loop over the columns.\<close>

fun fillCols :: "jsval list list \<Rightarrow> nat \<Rightarrow> jsval list \<Rightarrow> js_error + jsval list list" where
  "fillCols output col [] = Inr output"
| "fillCols output col (colData # rest) =
     (case colData of
        VArr vs \<Rightarrow>
          (case placeList output col vs of
             Inl err \<Rightarrow> Inl err
           | Inr output' \<Rightarrow> fillCols output' (Suc col) rest)
      | _ \<Rightarrow>
          (case output of
             [] \<Rightarrow> Inl TypeError
           | row0 # rows \<Rightarrow> fillCols (js_set row0 col colData # rows) (Suc col) rest))"

definition getOutputRows :: "csventry \<Rightarrow> js_error + jsval list list" where
  "getOutputRows e =
     fillCols
       (replicate (longestOf 1 (data e)) (replicate (length (headers e)) (VStr [])))
       0 (data e)"

section \<open>CSV\<close>

text \<open>
  An element of \<^verbatim>\<open>entries\<close>: \<^verbatim>\<open>addObject\<close> pushes a \<^verbatim>\<open>CSVEntry\<close>,
  \<^verbatim>\<open>addLine\<close> pushes its argument as it came.
\<close>

datatype entry = EntryObj csventry | RawLine jsval

record csv =
  csv_headers :: "string list"
  entries :: "entry list"
  qualifier :: string
  delimeter :: string
  currentLine :: jsval

text \<open>\<^verbatim>\<open>new CSV(headersIn)\<close> with an array of headers and no options.\<close>

definition CSV_new :: "string list \<Rightarrow> csv" where
  "CSV_new headersIn =
     \<lparr>csv_headers = headersIn, entries = [], qualifier = [CHR 0x22],
      delimeter = '','', currentLine = VUndef\<rparr>"

text \<open>
  A method call gives what it threw, if anything, and the document afterwards.
  \<^verbatim>\<open>addLine(line)\<close>: the entry \<^verbatim>\<open>row\<close> is built (which may throw) and dropped;
  \<^verbatim>\<open>line\<close> itself is pushed.
\<close>

definition addLine :: "csv \<Rightarrow> jsval \<Rightarrow> js_error option \<times> csv" where
  "addLine doc line =
     (case CSVEntry_new (csv_headers doc) line of
        Inl err \<Rightarrow> (Some err, doc)
      | Inr row \<Rightarrow>
          (None, doc\<lparr>entries := entries doc @ [RawLine line], currentLine := line\<rparr>))"

text \<open>\<^verbatim>\<open>Object.keys(obj)\<close> paired with \<^verbatim>\<open>obj[key]\<close>; \<^verbatim>\<open>Object.keys(null)\<close> throws.\<close>

definition object_entries :: "jsval \<Rightarrow> js_error + (string \<times> jsval) list" where
  "object_entries obj =
     (case obj of
        VObj kvs \<Rightarrow> Inr kvs
      | VArr xs \<Rightarrow> Inr (zip (map show_nat [0..<length xs]) xs)
      | _ \<Rightarrow> Inl TypeError)"

text \<open>The loop of \<^verbatim>\<open>addObject\<close> over the keys.\<close>

fun addKeys :: "string list \<Rightarrow> csventry \<Rightarrow> (string \<times> jsval) list \<Rightarrow> js_error + csventry" where
  "addKeys hs row [] = Inr row"
| "addKeys hs row ((key, v) # kvs) =
     (if key \<notin> set hs then Inl (CouldNotFindHeader key)
      else (case add row key v of
              Inl err \<Rightarrow> Inl err
            | Inr row' \<Rightarrow> addKeys hs row' kvs))"

text \<open>
  \<^verbatim>\<open>addObject(obj)\<close>. The message of the key-count check reads \<^verbatim>\<open>headers.length\<close>,
  and no variable \<^verbatim>\<open>headers\<close> is in scope in the module: building the message throws
  a \<^verbatim>\<open>ReferenceError\<close>.
\<close>

definition addObject :: "csv \<Rightarrow> jsval \<Rightarrow> js_error option \<times> csv" where
  "addObject doc obj =
     (if \<not> typeofObject obj then (Some ExpectedObject, doc)
      else (case object_entries obj of
              Inl err \<Rightarrow> (Some err, doc)
            | Inr kvs \<Rightarrow>
                (if length kvs \<noteq> length (csv_headers doc) then (Some ReferenceError, doc)
                 else (case addKeys (csv_headers doc)
                              \<lparr>headers = csv_headers doc, data = [], data_m1 = VUndef\<rparr> kvs of
                         Inl err \<Rightarrow> (Some err, doc)
                       | Inr row \<Rightarrow> (None, doc\<lparr>entries := entries doc @ [EntryObj row]\<rparr>)))))"

subsection \<open>writeFile\<close>

text \<open>
  The first loop: \<^verbatim>\<open>lines = lines.concat(entry.getOutputRows())\<close>. An element pushed
  by \<^verbatim>\<open>addLine\<close> is no \<^verbatim>\<open>CSVEntry\<close> and has no such method.
\<close>

fun collectLines :: "entry list \<Rightarrow> js_error + jsval list list" where
  "collectLines [] = Inr []"
| "collectLines (EntryObj e # es) =
     (case getOutputRows e of
        Inl err \<Rightarrow> Inl err
      | Inr rows \<Rightarrow>
          (case collectLines es of
             Inl err \<Rightarrow> Inl err
           | Inr others \<Rightarrow> Inr (rows @ others)))"
| "collectLines (RawLine v # es) = Inl TypeError"

text \<open>One field: the qualifier, the data unless it is falsy and not 0, the qualifier.\<close>

definition writeField :: "string \<Rightarrow> jsval \<Rightarrow> string" where
  "writeField q d =
     (if q \<noteq> [] then q else [])
     @ (if (d = VNull \<or> \<not> truthy d) \<and> d \<noteq> VNum 0 then [] else toString d)
     @ (if q \<noteq> [] then q else [])"

text \<open>
  The loop over \<^verbatim>\<open>col\<close>, from \<open>col\<close> on: the text it appends. The delimiter
  follows every field but the last.
\<close>

function writeCols :: "string \<Rightarrow> string \<Rightarrow> jsval list \<Rightarrow> nat \<Rightarrow> string" where
  "writeCols q dl line col =
     (if col < length line
      then writeField q (line ! col)
           @ (if col < length line - 1 then dl else [])
           @ writeCols q dl line (Suc col)
      else [])"
  by pat_completeness auto
termination
  by (relation "measure (\<lambda>(q, dl, line, col). length line - col)") auto

text \<open>The loop over \<^verbatim>\<open>row\<close>, from \<open>row\<close> on: a newline follows every row but the last.\<close>

function writeRows :: "string \<Rightarrow> string \<Rightarrow> jsval list list \<Rightarrow> nat \<Rightarrow> string" where
  "writeRows q dl lines row =
     (if row < length lines
      then writeCols q dl (lines ! row) 0
           @ (if row < length lines - 1 then [CHR 0x0A] else [])
           @ writeRows q dl lines (Suc row)
      else [])"
  by pat_completeness auto
termination
  by (relation "measure (\<lambda>(q, dl, lines, row). length lines - row)") auto

text \<open>Whether a field can be written: it is left empty, or its data can be converted.\<close>

definition writable :: "jsval \<Rightarrow> bool" where
  "writable d = (((d = VNull \<or> \<not> truthy d) \<and> d \<noteq> VNum 0) \<or> printable d)"

text \<open>
  \<^verbatim>\<open>writeFile(filename)\<close>: the text handed to \<^verbatim>\<open>fs.writeFileSync\<close>. A field
  that cannot be converted throws before anything is written.
\<close>

definition writeFile :: "csv \<Rightarrow> js_error + string" where
  "writeFile doc =
     (case collectLines (entries doc) of
        Inl err \<Rightarrow> Inl err
      | Inr rows \<Rightarrow>
          (let lines = map VStr (csv_headers doc) # rows
           in if list_all (list_all writable) lines
              then Inr (writeRows (qualifier doc) (delimeter doc) lines 0)
              else Inl TypeError))"

text \<open>
  A client of a document: the calls it makes one after the other, going on after a call
  that threw.
\<close>

datatype call = AddLine jsval | AddObject jsval

fun calls :: "csv \<Rightarrow> call list \<Rightarrow> csv" where
  "calls doc [] = doc"
| "calls doc (AddLine line # cs) = calls (snd (addLine doc line)) cs"
| "calls doc (AddObject obj # cs) = calls (snd (addObject doc obj)) cs"

section \<open>Regular expressions\<close>

text \<open>
  A \<^verbatim>\<open>RegExp\<close> object built from a pattern given by the caller is kept as the source
  of its pattern. What the engine of the JavaScript runtime does with a pattern is a
  parameter of the model: whether \<^verbatim>\<open>new RegExp(src)\<close> compiles, what
  \<^verbatim>\<open>str.match(re)\<close> returns (\<open>None\<close> for \<^verbatim>\<open>null\<close>, else the whole match followed by
  the capture groups, a group that took no part being \<^verbatim>\<open>undefined\<close>), and what
  \<^verbatim>\<open>str.split(re)\<close> returns (capture groups of the delimiter are spliced in, and may
  be \<^verbatim>\<open>undefined\<close>).
\<close>

datatype regexp = RegExp (source: string)

record engine =
  re_valid :: "string \<Rightarrow> bool"
  re_exec :: "string \<Rightarrow> string \<Rightarrow> string option list option"
  re_split :: "string \<Rightarrow> string \<Rightarrow> string option list"

text \<open>\<^verbatim>\<open>new RegExp(src)\<close>.\<close>

definition RegExp_new :: "engine \<Rightarrow> string \<Rightarrow> js_error + regexp" where
  "RegExp_new E src = (if re_valid E src then Inr (RegExp src) else Inl SyntaxError)"

text \<open>\<^verbatim>\<open>matches[i]\<close> of a match array.\<close>

definition group :: "string option list \<Rightarrow> nat \<Rightarrow> jsval" where
  "group matches i =
     (if i < length matches
      then (case matches ! i of Some s \<Rightarrow> VStr s | None \<Rightarrow> VUndef)
      else VUndef)"

subsection \<open>The four template patterns\<close>

text \<open>
  The patterns of the header templates are constants of the source, all of the shape
  \<^verbatim>\<open>(.+?)OPEN(.+?)CLOSE\<close>. Their matches are computed here as the backtracking engine
  finds them: the leftmost start, then the shortest first group, then the shortest second
  group; a dot takes any character but a line terminator.
\<close>

definition isLineTerminator :: "char \<Rightarrow> bool" where
  "isLineTerminator c = (c = CHR 0x0A \<or> c = CHR 0x0D)"

definition startsWith :: "string \<Rightarrow> string \<Rightarrow> bool" where
  "startsWith p s = (take (length p) s = p)"

text \<open>\<^verbatim>\<open>(.+?)CLOSE\<close> at the start of a string: the group and what follows the match.\<close>

fun lazyUntil :: "string \<Rightarrow> string \<Rightarrow> string \<Rightarrow> (string \<times> string) option" where
  "lazyUntil cl acc [] = None"
| "lazyUntil cl acc (c # cs) =
     (if isLineTerminator c then None
      else if startsWith cl cs then Some (acc @ [c], drop (length cl) cs)
      else lazyUntil cl (acc @ [c]) cs)"

text \<open>The whole pattern at the start of a string.\<close>

fun lazyPairAt :: "string \<Rightarrow> string \<Rightarrow> string \<Rightarrow> string \<Rightarrow> (string \<times> string \<times> string) option" where
  "lazyPairAt opn cl acc [] = None"
| "lazyPairAt opn cl acc (c # cs) =
     (if isLineTerminator c then None
      else if startsWith opn cs
      then (case lazyUntil cl [] (drop (length opn) cs) of
              Some (g2, rest) \<Rightarrow> Some (acc @ [c], g2, rest)
            | None \<Rightarrow> lazyPairAt opn cl (acc @ [c]) cs)
      else lazyPairAt opn cl (acc @ [c]) cs)"

text \<open>The search for the leftmost start: what precedes the match, the groups, the rest.\<close>

fun lazyPair :: "string \<Rightarrow> string \<Rightarrow> string \<Rightarrow> string \<Rightarrow> (string \<times> string \<times> string \<times> string) option" where
  "lazyPair opn cl pre [] = None"
| "lazyPair opn cl pre (c # cs) =
     (case lazyPairAt opn cl [] (c # cs) of
        Some (g1, g2, rest) \<Rightarrow> Some (pre, g1, g2, rest)
      | None \<Rightarrow> lazyPair opn cl (pre @ [c]) cs)"

text \<open>
  \<^verbatim>\<open>header.match(re)\<close> for such a pattern: groups 1 and 2 of the match. A match
  array of these patterns always has length 3, which is what the source tests.
\<close>

definition templateMatch :: "string \<Rightarrow> string \<Rightarrow> string \<Rightarrow> (string \<times> string) option" where
  "templateMatch opn cl s =
     (case lazyPair opn cl [] s of
        Some (pre, g1, g2, rest) \<Rightarrow> Some (g1, g2)
      | None \<Rightarrow> None)"

text \<open>\<^verbatim>\<open>s.replace(re, "")\<close> for such a pattern: the first match is cut out.\<close>

definition templateCut :: "string \<Rightarrow> string \<Rightarrow> string \<Rightarrow> string" where
  "templateCut opn cl s =
     (case lazyPair opn cl [] s of
        Some (pre, g1, g2, rest) \<Rightarrow> pre @ rest
      | None \<Rightarrow> s)"

text \<open>\<^verbatim>\<open>/(.+?)\[\[(.+?)\]\]/\<close>\<close>

definition multiDataRegex :: "string \<Rightarrow> (string \<times> string) option" where
  "multiDataRegex = templateMatch ''[['' '']]''"

text \<open>\<^verbatim>\<open>/(.+?)\{\{(.+?)\}\}/\<close>\<close>

definition splitDataRegex :: "string \<Rightarrow> (string \<times> string) option" where
  "splitDataRegex = templateMatch ''{{'' ''}}''"

text \<open>\<^verbatim>\<open>/(.+?)<<(.+?)>>/\<close>\<close>

definition mapDataRegex :: "string \<Rightarrow> (string \<times> string) option" where
  "mapDataRegex = templateMatch ''<<'' ''>>''"

text \<open>\<^verbatim>\<open>/(.+?)\/\/(.+?)\\\\/\<close>: two slashes open, two backslashes close.\<close>

definition transformDataRegex :: "string \<Rightarrow> (string \<times> string) option" where
  "transformDataRegex = templateMatch ''//'' [CHR 0x5C, CHR 0x5C]"

text \<open>\<^verbatim>\<open>s.split(",,")\<close>.\<close>

fun splitCommas :: "string \<Rightarrow> string \<Rightarrow> string list" where
  "splitCommas acc [] = [acc]"
| "splitCommas acc [c] = [acc @ [c]]"
| "splitCommas acc (c # d # cs) =
     (if c = CHR '','' \<and> d = CHR '',''
      then acc # splitCommas [] cs
      else splitCommas (acc @ [c]) (d # cs))"

section \<open>Header objects\<close>

text \<open>
  The object \<^verbatim>\<open>processHeaders\<close> builds for a template: its \<^verbatim>\<open>type\<close> with the
  properties that type carries (\<^verbatim>\<open>header\<close> and \<^verbatim>\<open>transform\<close>; \<^verbatim>\<open>headers\<close> and
  \<^verbatim>\<open>dataRegex\<close>; \<^verbatim>\<open>header\<close> and \<^verbatim>\<open>delim\<close>; \<^verbatim>\<open>header\<close>), and its property
  \<^verbatim>\<open>map\<close> when the template has a map pattern.
\<close>

datatype headerType =
    Transform string regexp
  | Multi "string list" regexp
  | Split string regexp
  | Norm string

record headerObj =
  htype :: headerType
  hmap :: "regexp option"

text \<open>The body of the loop of \<^verbatim>\<open>processHeaders\<close> for a template that is not \<^verbatim>\<open>null\<close>.\<close>

definition processHeader :: "engine \<Rightarrow> string \<Rightarrow> js_error + headerObj" where
  "processHeader E header =
     (case (case mapDataRegex header of
              Some (g1, mapDataStr) \<Rightarrow>
                (case RegExp_new E mapDataStr of
                   Inl err \<Rightarrow> Inl err
                 | Inr re \<Rightarrow> Inr (Some re))
            | None \<Rightarrow> Inr None) of
        Inl err \<Rightarrow> Inl err
      | Inr objmap \<Rightarrow>
          (case transformDataRegex header of
             Some (g1, transfomDataStr) \<Rightarrow>
               (case RegExp_new E transfomDataStr of
                  Inl err \<Rightarrow> Inl err
                | Inr transformRegex \<Rightarrow>
                    Inr \<lparr>htype = Transform g1 transformRegex, hmap = objmap\<rparr>)
           | None \<Rightarrow>
               (case multiDataRegex header of
                  Some (headerString, g2) \<Rightarrow>
                    (case RegExp_new E g2 of
                       Inl err \<Rightarrow> Inl err
                     | Inr colRegex \<Rightarrow>
                         Inr \<lparr>htype = Multi (splitCommas [] (templateCut ''[['' '']]'' headerString))
                                        colRegex,
                              hmap = objmap\<rparr>)
                | None \<Rightarrow>
                    (case splitDataRegex header of
                       Some (headerString, delim) \<Rightarrow>
                         (case RegExp_new E delim of
                            Inl err \<Rightarrow> Inl err
                          | Inr delimRegex \<Rightarrow>
                              Inr \<lparr>htype = Split headerString delimRegex, hmap = objmap\<rparr>)
                     | None \<Rightarrow> Inr \<lparr>htype = Norm header, hmap = objmap\<rparr>))))"

text \<open>\<^verbatim>\<open>processHeaders(headers)\<close>: \<open>None\<close> is a \<^verbatim>\<open>null\<close> template.\<close>

fun processHeaders :: "engine \<Rightarrow> string option list \<Rightarrow> js_error + headerObj option list" where
  "processHeaders E [] = Inr []"
| "processHeaders E (None # hs) =
     (case processHeaders E hs of
        Inl err \<Rightarrow> Inl err
      | Inr headersOut \<Rightarrow> Inr (None # headersOut))"
| "processHeaders E (Some header # hs) =
     (case processHeader E header of
        Inl err \<Rightarrow> Inl err
      | Inr obj \<Rightarrow>
          (case processHeaders E hs of
             Inl err \<Rightarrow> Inl err
           | Inr headersOut \<Rightarrow> Inr (Some obj # headersOut)))"

section \<open>Records\<close>

text \<open>
  \<^verbatim>\<open>obj[key]\<close> for an own property, and for a name that is not inherited: a missing
  property reads as \<^verbatim>\<open>undefined\<close>.
\<close>

definition obj_get :: "(string \<times> jsval) list \<Rightarrow> string \<Rightarrow> jsval" where
  "obj_get kvs key = (case map_of kvs key of Some v \<Rightarrow> v | None \<Rightarrow> VUndef)"

text \<open>
  A key that is an array index (a canonical decimal numeral below 2^32 - 1) is
  enumerated before every other key, in ascending order.
\<close>

definition digitVal :: "char \<Rightarrow> nat option" where
  "digitVal c =
     (let n = (of_char c :: nat) in if 48 \<le> n \<and> n \<le> 57 then Some (n - 48) else None)"

fun parseNat :: "nat \<Rightarrow> string \<Rightarrow> nat option" where
  "parseNat acc [] = Some acc"
| "parseNat acc (c # cs) =
     (case digitVal c of
        None \<Rightarrow> None
      | Some d \<Rightarrow> parseNat (10 * acc + d) cs)"

definition arrayIndex :: "string \<Rightarrow> nat option" where
  "arrayIndex key =
     (case key of
        [] \<Rightarrow> None
      | c # cs \<Rightarrow>
          (if c = CHR ''0'' \<and> cs \<noteq> [] then None
           else (case parseNat 0 key of
                   Some n \<Rightarrow> (if n < 4294967295 then Some n else None)
                 | None \<Rightarrow> None)))"

definition comesBefore :: "nat \<Rightarrow> string \<times> jsval \<Rightarrow> bool" where
  "comesBefore n kv = (case arrayIndex (fst kv) of Some m \<Rightarrow> m < n | None \<Rightarrow> False)"

text \<open>\<^verbatim>\<open>obj[key] = v\<close>: an own property keeps its place, a new one is created.\<close>

definition obj_set :: "(string \<times> jsval) list \<Rightarrow> string \<Rightarrow> jsval \<Rightarrow> (string \<times> jsval) list" where
  "obj_set kvs key v =
     (if key \<in> fst ` set kvs
      then map (\<lambda>kv. if fst kv = key then (key, v) else kv) kvs
      else (case arrayIndex key of
              None \<Rightarrow> kvs @ [(key, v)]
            | Some n \<Rightarrow> takeWhile (comesBefore n) kvs @ (key, v) # dropWhile (comesBefore n) kvs))"

text \<open>
  The names of the properties every object inherits from \<^verbatim>\<open>Object.prototype\<close>. Reading
  one of them from an object that has no own property of that name gives a function of
  the runtime, or for \<^verbatim>\<open>__proto__\<close> the prototype itself: a truthy value.
\<close>

definition protoNames :: "string list" where
  "protoNames =
     [''constructor'', ''__defineGetter__'', ''__defineSetter__'', ''hasOwnProperty'',
      ''__lookupGetter__'', ''__lookupSetter__'', ''isPrototypeOf'', ''propertyIsEnumerable'',
      ''toString'', ''valueOf'', ''__proto__'', ''toLocaleString'']"

text \<open>
  \<^verbatim>\<open>obj[key] = v\<close> on an object. The inherited \<^verbatim>\<open>__proto__\<close> is an accessor:
  assigning to it creates no own property. Its setter ignores a value that is neither an
  object nor \<^verbatim>\<open>null\<close>, and otherwise replaces the prototype, which this model does not
  follow.
\<close>

definition obj_put :: "(string \<times> jsval) list \<Rightarrow> string \<Rightarrow> jsval \<Rightarrow> js_error + (string \<times> jsval) list" where
  "obj_put kvs key v =
     (if key = ''__proto__'' \<and> key \<notin> fst ` set kvs
      then (if typeofObject v then Inl NotModelled else Inr kvs)
      else Inr (obj_set kvs key v))"

text \<open>The key a match group is used as: \<^verbatim>\<open>undefined\<close> becomes the string of that name.\<close>

definition propertyKey :: "jsval \<Rightarrow> string" where
  "propertyKey v = toString v"

text \<open>
  \<^verbatim>\<open>target[key] = v\<close> where the target is a value held by the record. The module is
  strict code, so a primitive target throws, unless the key is \<^verbatim>\<open>__proto__\<close>, whose
  setter returns without a word. An array target would get a named property or a new
  element, which the arrays of this model do not have.
\<close>

definition prop_assign :: "jsval \<Rightarrow> string \<Rightarrow> jsval \<Rightarrow> js_error + jsval" where
  "prop_assign target key v =
     (case target of
        VObj kvs \<Rightarrow>
          (case obj_put kvs key v of
             Inl err \<Rightarrow> Inl err
           | Inr kvs' \<Rightarrow> Inr (VObj kvs'))
      | VArr xs \<Rightarrow> Inl NotModelled
      | VUndef \<Rightarrow> Inl TypeError
      | VNull \<Rightarrow> Inl TypeError
      | _ \<Rightarrow> (if key = ''__proto__'' then Inr target else Inl TypeError))"

section \<open>putDataInObject\<close>

text \<open>
  The calls to \<^verbatim>\<open>logStart\<close> and \<^verbatim>\<open>logEnd\<close> only write to the log and are left out.
  The loop of the \<^verbatim>\<open>multi\<close> case over the headers.
\<close>

fun multiAssign :: "string option list \<Rightarrow> nat \<Rightarrow> string list \<Rightarrow> (string \<times> jsval) list \<Rightarrow> js_error + (string \<times> jsval) list" where
  "multiAssign matches x [] destObj = Inr destObj"
| "multiAssign matches x (header # rest) destObj =
     (case obj_put destObj header (group matches (Suc x)) of
        Inl err \<Rightarrow> Inl err
      | Inr destObj' \<Rightarrow> multiAssign matches (Suc x) rest destObj')"

text \<open>An element of the array \<^verbatim>\<open>data.split(delim)\<close>.\<close>

definition partVal :: "string option \<Rightarrow> jsval" where
  "partVal p = (case p of Some s \<Rightarrow> VStr s | None \<Rightarrow> VUndef)"

text \<open>
  The loop of the \<^verbatim>\<open>split\<close> case over the parts when the header has a map pattern:
  \<open>cur\<close> is \<^verbatim>\<open>destObj[header2]\<close>; a part that does not match stores the array and leaves
  the loop.
\<close>

fun mapParts :: "engine \<Rightarrow> regexp \<Rightarrow> jsval \<Rightarrow> string option list \<Rightarrow> jsval \<Rightarrow> js_error + jsval" where
  "mapParts E re dataArr [] cur = Inr cur"
| "mapParts E re dataArr (part # rest) cur =
     (case part of
        None \<Rightarrow> Inl TypeError
      | Some data2 \<Rightarrow>
          (case re_exec E (source re) data2 of
             None \<Rightarrow> Inr dataArr
           | Some matches \<Rightarrow>
               (case prop_assign cur (propertyKey (group matches 1)) (group matches 2) of
                  Inl err \<Rightarrow> Inl err
                | Inr cur' \<Rightarrow> mapParts E re dataArr rest cur')))"

text \<open>
  The \<^verbatim>\<open>switch\<close> on the type of one header object. Only a string has the methods
  \<^verbatim>\<open>match\<close> and \<^verbatim>\<open>split\<close>: any other cell throws where they are called. In the
  split case with a map pattern, a record that has no own property \<^verbatim>\<open>header2\<close> but
  inherits one reads as truthy there: the parts would be assigned to a function or object
  of the runtime that all objects share, which this model does not follow.
\<close>

definition putColumn :: "engine \<Rightarrow> jsval \<Rightarrow> headerObj \<Rightarrow> (string \<times> jsval) list \<Rightarrow> js_error + (string \<times> jsval) list" where
  "putColumn E cell headerObj destObj =
     (case htype headerObj of
        Transform header re \<Rightarrow>
          (case cell of
             VStr s \<Rightarrow>
               (case re_exec E (source re) s of
                  None \<Rightarrow> Inl ProcessExit
                | Some matches \<Rightarrow> obj_put destObj header (group matches 1))
           | _ \<Rightarrow> Inl TypeError)
      | Multi hdrs dataRegex \<Rightarrow>
          (case cell of
             VStr s \<Rightarrow>
               (case re_exec E (source dataRegex) s of
                  None \<Rightarrow> (if hdrs = [] then Inr destObj else Inl TypeError)
                | Some matches \<Rightarrow> multiAssign matches 0 hdrs destObj)
           | _ \<Rightarrow> Inl TypeError)
      | Split header2 delim \<Rightarrow>
          (case cell of
             VStr s \<Rightarrow>
               (let parts = re_split E (source delim) s;
                    dataArr = VArr (map partVal parts)
                in case hmap headerObj of
                     None \<Rightarrow> obj_put destObj header2 dataArr
                   | Some mapRegex \<Rightarrow>
                       (if header2 \<notin> fst ` set destObj \<and> header2 \<in> set protoNames
                        then Inl NotModelled
                        else (case mapParts E mapRegex dataArr parts
                                     (if truthy (obj_get destObj header2)
                                      then obj_get destObj header2 else VObj []) of
                                Inl err \<Rightarrow> Inl err
                              | Inr v \<Rightarrow> obj_put destObj header2 v)))
           | _ \<Rightarrow> Inl TypeError)
      | Norm header3 \<Rightarrow> obj_put destObj header3 cell)"

text \<open>
  \<^verbatim>\<open>putDataInObject(dataArr, headerObjArr, destObj)\<close>: the loop runs over the cells; a cell
  with no header object (\<^verbatim>\<open>null\<close>, or past the end of the headers) is skipped.
\<close>

fun putDataInObject :: "engine \<Rightarrow> jsval list \<Rightarrow> headerObj option list \<Rightarrow> (string \<times> jsval) list \<Rightarrow> js_error + (string \<times> jsval) list" where
  "putDataInObject E [] headerObjArr destObj = Inr destObj"
| "putDataInObject E (cell # cells) [] destObj = putDataInObject E cells [] destObj"
| "putDataInObject E (cell # cells) (None # hs) destObj = putDataInObject E cells hs destObj"
| "putDataInObject E (cell # cells) (Some headerObj # hs) destObj =
     (case putColumn E cell headerObj destObj of
        Inl err \<Rightarrow> Inl err
      | Inr destObj' \<Rightarrow> putDataInObject E cells hs destObj')"

section \<open>The table functions\<close>

text \<open>
  A row is given as the cells \<^verbatim>\<open>rowToArray\<close> extracts from it.
  \<^verbatim>\<open>rowToObj\<close> fills a new object.
\<close>

definition rowToObj :: "engine \<Rightarrow> jsval list \<Rightarrow> headerObj option list \<Rightarrow> js_error + (string \<times> jsval) list" where
  "rowToObj E cols hs = putDataInObject E cols hs []"

text \<open>\<^verbatim>\<open>rowsToArrayOfObj\<close>: the rows in order; what a row throws ends the loop.\<close>

fun rowsToArrayOfObj :: "engine \<Rightarrow> jsval list list \<Rightarrow> headerObj option list \<Rightarrow> js_error + (string \<times> jsval) list list" where
  "rowsToArrayOfObj E [] hs = Inr []"
| "rowsToArrayOfObj E (row # rows) hs =
     (case rowToObj E row hs of
        Inl err \<Rightarrow> Inl err
      | Inr obj \<Rightarrow>
          (case rowsToArrayOfObj E rows hs of
             Inl err \<Rightarrow> Inl err
           | Inr out \<Rightarrow> Inr (obj # out)))"


section \<open>An engine for the examples\<close>

text \<open>\<^verbatim>\<open>s.split(/,/)\<close>.\<close>

fun splitComma :: "string \<Rightarrow> string \<Rightarrow> string list" where
  "splitComma acc [] = [acc]"
| "splitComma acc (c # cs) =
     (if c = CHR '','' then acc # splitComma [] cs else splitComma (acc @ [c]) cs)"

text \<open>
  The engine of the runtime on the two patterns of the examples: \<^verbatim>\<open>^(.)=(.)$\<close>, which
  matches the strings of three characters with \<^verbatim>\<open>=\<close> in the middle, and \<^verbatim>\<open>,\<close>.
  A split on the first pattern cuts a string that matches into the empty string before the
  match, the two groups, and the empty string after it. Every other pattern is refused
  here, though the runtime would compile many of them: the examples use no other pattern.
\<close>

definition kvPattern :: string where
  "kvPattern = ''^(.)=(.)$''"

definition kvExec :: "string \<Rightarrow> string option list option" where
  "kvExec s =
     (case s of
        [a, e, b] \<Rightarrow>
          (if e = CHR ''='' \<and> \<not> isLineTerminator a \<and> \<not> isLineTerminator b
           then Some [Some s, Some [a], Some [b]] else None)
      | _ \<Rightarrow> None)"

definition sampleEngine :: engine where
  "sampleEngine =
     \<lparr>re_valid = (\<lambda>src. src = kvPattern \<or> src = '',''),
      re_exec = (\<lambda>src s. if src = kvPattern then kvExec s
                          else if src = '','' \<and> CHR '','' \<in> set s then Some [Some '',''] else None),
      re_split = (\<lambda>src s. if src = '','' then map Some (splitComma [] s)
                           else if src = kvPattern
                           then (case kvExec s of
                                   Some m \<Rightarrow> Some [] # tl m @ [Some []]
                                 | None \<Rightarrow> [Some s])
                           else [Some s])\<rparr>"

section \<open>Notions used in the statements\<close>

text \<open>
  The grid after the values \<open>vs\<close> have been written down column \<open>col\<close>, one per row
  from row \<open>k\<close> on.
\<close>

definition stamp :: "jsval list list \<Rightarrow> nat \<Rightarrow> nat \<Rightarrow> jsval list \<Rightarrow> jsval list list" where
  "stamp grid col k vs =
     map (\<lambda>r. if k \<le> r \<and> r < k + length vs then js_set (grid ! r) col (vs ! (r - k)) else grid ! r)
       [0..<length grid]"

text \<open>
  The height of the block of rows of an entry: the length of its longest array cell, a
  cell that is no array counting 1, and at least 1.
\<close>

definition cellLen :: "jsval \<Rightarrow> nat" where
  "cellLen cell = (case cell of VArr vs \<Rightarrow> length vs | _ \<Rightarrow> 1)"

definition height :: "jsval list \<Rightarrow> nat" where
  "height cells = foldr max (map cellLen cells) 1"

text \<open>
  What a cell puts in row \<open>r\<close> of its column: an array its element \<open>r\<close>, any other value
  itself in row 0; the empty string elsewhere.
\<close>

definition cellAt :: "jsval \<Rightarrow> nat \<Rightarrow> jsval" where
  "cellAt cell r =
     (case cell of
        VArr vs \<Rightarrow> (if r < length vs then vs ! r else VStr [])
      | _ \<Rightarrow> (if r = 0 then cell else VStr []))"

text \<open>
  What the template patterns \<^verbatim>\<open>(.+?)OPEN(.+?)CLOSE\<close> mean. A match of such a pattern in
  a string cuts it into what precedes the match, group 1, the opening bracket, group 2,
  the closing bracket and the rest; both groups are non-empty and hold no line terminator.
\<close>

definition matchOf :: "string \<Rightarrow> string \<Rightarrow> string \<Rightarrow> string \<times> string \<times> string \<times> string \<Rightarrow> bool" where
  "matchOf opn cl s m =
     (case m of (pre, g1, g2, rest) \<Rightarrow>
        s = pre @ g1 @ opn @ g2 @ cl @ rest \<and> g1 \<noteq> [] \<and> g2 \<noteq> []
        \<and> list_all (\<lambda>c. \<not> isLineTerminator c) (g1 @ g2))"

text \<open>
  The order in which a backtracking engine tries the matches: the start further left
  first, then the shorter group 1, then the shorter group 2 (both groups are lazy).
\<close>

definition earlier :: "string \<times> string \<times> string \<times> string \<Rightarrow> string \<times> string \<times> string \<times> string \<Rightarrow> bool" where
  "earlier m m' =
     (case m of (pre, g1, g2, rest) \<Rightarrow>
      case m' of (pre', g1', g2', rest') \<Rightarrow>
        length pre < length pre'
        \<or> (length pre = length pre'
            \<and> (length g1 < length g1' \<or> (length g1 = length g1' \<and> length g2 \<le> length g2'))))"

text \<open>The match the engine reports: no other match comes before it.\<close>

definition firstMatch :: "string \<Rightarrow> string \<Rightarrow> string \<Rightarrow> string \<times> string \<times> string \<times> string \<Rightarrow> bool" where
  "firstMatch opn cl s m = (matchOf opn cl s m \<and> (\<forall>m'. matchOf opn cl s m' \<longrightarrow> earlier m m'))"

text \<open>
  \<open>r\<close> is what \<^verbatim>\<open>s.match(/(.+?)OPEN(.+?)CLOSE/)\<close> gives: \<open>None\<close> when the string has
  no match at all, else groups 1 and 2 of its first match.
\<close>

definition patternOf :: "string \<Rightarrow> string \<Rightarrow> string \<Rightarrow> (string \<times> string) option \<Rightarrow> bool" where
  "patternOf opn cl s r =
     (case r of
        None \<Rightarrow> (\<forall>m. \<not> matchOf opn cl s m)
      | Some (g1, g2) \<Rightarrow> (\<exists>pre rest. firstMatch opn cl s (pre, g1, g2, rest)))"

text \<open>A header object without its map pattern, unless its type is split.\<close>

definition inertMap :: "headerObj \<Rightarrow> headerObj" where
  "inertMap h = (case htype h of Split n re \<Rightarrow> h | _ \<Rightarrow> h\<lparr>hmap := None\<rparr>)"

text \<open>
  The key and value a part of a split cell gives under a map pattern: capture groups 1
  and 2 of its match. \<open>mappingOf\<close> is the object built by assigning such pairs in order;
  a pair with the key \<^verbatim>\<open>__proto__\<close> leaves no property.
\<close>

definition fragmentPair :: "engine \<Rightarrow> regexp \<Rightarrow> string option \<Rightarrow> (string \<times> jsval) option" where
  "fragmentPair E re p =
     (case p of
        None \<Rightarrow> None
      | Some str \<Rightarrow>
          (case re_exec E (source re) str of
             None \<Rightarrow> None
           | Some matches \<Rightarrow> Some (propertyKey (group matches 1), group matches 2)))"

definition assignPair :: "(string \<times> jsval) list \<Rightarrow> string \<times> jsval \<Rightarrow> (string \<times> jsval) list" where
  "assignPair kvs kv =
     (if fst kv = ''__proto__'' \<and> fst kv \<notin> fst ` set kvs then kvs
      else obj_set kvs (fst kv) (snd kv))"

definition mappingOf :: "(string \<times> jsval) list \<Rightarrow> (string \<times> jsval) list" where
  "mappingOf pairs = foldl assignPair [] pairs"

section \<open>Properties of the CSV document\<close>

declare findSlot.simps [simp del] writeCols.simps [simp del] writeRows.simps [simp del]

subsection \<open>The two writing loops join fields and rows\<close>

lemma writeCols_join: "writeCols q dl line col = join dl (map (writeField q) (drop col line))"
proof (induction q dl line col rule: writeCols.induct)
  case (1 q dl line col)
  show ?case
  proof (cases "col < length line")
    case False
    then show ?thesis by (simp add: writeCols.simps)
  next
    case True
    then obtain x rest where d: "drop col line = x # rest" and x: "x = line ! col" and r: "rest = drop (Suc col) line"
      by (metis Cons_nth_drop_Suc)
    show ?thesis
    proof (cases "col < length line - 1")
      case True
      then have "rest \<noteq> []" using r by simp
      then obtain y ys where "rest = y # ys" by (cases rest) auto
      then show ?thesis using 1 \<open>col < length line\<close> True d x r
        by (subst writeCols.simps) simp
    next
      case False
      then have "rest = []" using r True by simp
      then show ?thesis using 1 \<open>col < length line\<close> False d x r
        by (subst writeCols.simps) (simp add: writeCols.simps)
    qed
  qed
qed

lemma writeRows_join: "writeRows q dl lines row = join [CHR 0x0A] (map (\<lambda>l. join dl (map (writeField q) l)) (drop row lines))"
proof (induction q dl lines row rule: writeRows.induct)
  case (1 q dl lines row)
  show ?case
  proof (cases "row < length lines")
    case False
    then show ?thesis by (simp add: writeRows.simps)
  next
    case True
    then obtain x rest where d: "drop row lines = x # rest" and x: "x = lines ! row" and r: "rest = drop (Suc row) lines"
      by (metis Cons_nth_drop_Suc)
    show ?thesis
    proof (cases "row < length lines - 1")
      case True
      then have "rest \<noteq> []" using r by simp
      then obtain y ys where "rest = y # ys" by (cases rest) auto
      then show ?thesis using 1 \<open>row < length lines\<close> True d x r
        by (subst writeRows.simps) (simp add: writeCols_join)
    next
      case False
      then have "rest = []" using r True by simp
      then show ?thesis using 1 \<open>row < length lines\<close> False d x r
        by (subst writeRows.simps) (simp add: writeRows.simps writeCols_join)
    qed
  qed
qed

subsection \<open>What can be thrown\<close>

lemma findSlot_err: "findSlot grid col index = Inl err \<Longrightarrow> err = TypeError"
  by (induction grid col index rule: findSlot.induct)
     (subst (asm) findSlot.simps, auto split: if_splits)

lemma placeList_err: "placeList grid col vs = Inl err \<Longrightarrow> err = TypeError"
  by (induction vs arbitrary: grid) (auto split: sum.splits dest: findSlot_err)

lemma fillCols_err: "fillCols grid col cells = Inl err \<Longrightarrow> err = TypeError"
proof (induction cells arbitrary: grid col)
  case Nil
  then show ?case by simp
next
  case (Cons c cells)
  then show ?case
    by (cases c) (auto split: sum.splits list.splits dest: placeList_err)
qed

lemma getOutputRows_err: "getOutputRows e = Inl err \<Longrightarrow> err = TypeError"
  unfolding getOutputRows_def by (rule fillCols_err)

lemma collectLines_raw: "RawLine v \<in> set es \<Longrightarrow> collectLines es = Inl TypeError"
proof (induction es)
  case Nil
  then show ?case by simp
next
  case (Cons x es)
  show ?case
  proof (cases x)
    case (EntryObj e)
    with Cons show ?thesis
      by (auto split: sum.splits dest: getOutputRows_err)
  next
    case (RawLine w)
    then show ?thesis by simp
  qed
qed

lemma addLine_entries: "\<exists>more. entries (snd (addLine doc line)) = entries doc @ more"
  by (auto simp: addLine_def split: sum.splits)

lemma addObject_entries: "\<exists>more. entries (snd (addObject doc obj)) = entries doc @ more"
  by (auto simp: addObject_def split: sum.splits)

lemma calls_entries: "\<exists>more. entries (calls doc cs) = entries doc @ more"
proof (induction cs arbitrary: doc)
  case Nil
  then show ?case by simp
next
  case (Cons c cs)
  show ?case
  proof (cases c)
    case (AddLine line)
    obtain m1 where m1: "entries (snd (addLine doc line)) = entries doc @ m1"
      using addLine_entries by blast
    obtain m2 where "entries (calls (snd (addLine doc line)) cs) = entries (snd (addLine doc line)) @ m2"
      using Cons.IH by blast
    with m1 AddLine show ?thesis by simp
  next
    case (AddObject obj)
    obtain m1 where m1: "entries (snd (addObject doc obj)) = entries doc @ m1"
      using addObject_entries by blast
    obtain m2 where "entries (calls (snd (addObject doc obj)) cs) = entries (snd (addObject doc obj)) @ m2"
      using Cons.IH by blast
    with m1 AddObject show ?thesis by simp
  qed
qed

lemma writeFile_raw: "RawLine v \<in> set (entries doc) \<Longrightarrow> writeFile doc = Inl TypeError"
  by (simp add: writeFile_def collectLines_raw)

subsection \<open>The loop of addObject\<close>

lemma add_err: "add row key v = Inl err \<Longrightarrow> err = CannotAddObjectToCell"
  by (auto simp: add_def Let_def split: if_splits jsval.splits)

lemma add_plain: "typeofObject v \<and> \<not> isArray v \<Longrightarrow> add row key v = Inl CannotAddObjectToCell"
  by (simp add: add_def)

lemma add_ok: "\<not> (typeofObject v \<and> \<not> isArray v) \<Longrightarrow> \<exists>row'. add row key v = Inr row'"
  by (auto simp: add_def Let_def split: jsval.splits)

lemma addKeys_unknown:
  "fst ` set pre \<subseteq> set hs \<Longrightarrow> list_all (\<lambda>kv. \<not> (typeofObject (snd kv) \<and> \<not> isArray (snd kv))) pre \<Longrightarrow>
   k \<notin> set hs \<Longrightarrow> addKeys hs row (pre @ (k, v) # post) = Inl (CouldNotFindHeader k)"
proof (induction pre arbitrary: row)
  case Nil
  then show ?case by simp
next
  case (Cons kv pre)
  obtain k' v' where kv: "kv = (k', v')" by (cases kv)
  with Cons.prems have "\<not> (typeofObject v' \<and> \<not> isArray v')" by simp
  then obtain row' where "add row k' v' = Inr row'" using add_ok by blast
  with Cons kv show ?case by simp
qed

lemma addKeys_plain:
  "fst ` set pre \<subseteq> set hs \<Longrightarrow> list_all (\<lambda>kv. \<not> (typeofObject (snd kv) \<and> \<not> isArray (snd kv))) pre \<Longrightarrow>
   k \<in> set hs \<Longrightarrow> typeofObject v \<and> \<not> isArray v \<Longrightarrow> addKeys hs row (pre @ (k, v) # post) = Inl CannotAddObjectToCell"
proof (induction pre arbitrary: row)
  case Nil
  then show ?case by (simp add: add_plain)
next
  case (Cons kv pre)
  obtain k' v' where kv: "kv = (k', v')" by (cases kv)
  with Cons.prems have "\<not> (typeofObject v' \<and> \<not> isArray v')" by simp
  then obtain row' where "add row k' v' = Inr row'" using add_ok by blast
  with Cons kv show ?case by simp
qed

lemma addKeys_object_fails:
  "(k, v) \<in> set kvs \<Longrightarrow> typeofObject v \<and> \<not> isArray v \<Longrightarrow>
   \<exists>err. addKeys hs row kvs = Inl err \<and> (fst ` set kvs \<subseteq> set hs \<longrightarrow> err = CannotAddObjectToCell)"
proof (induction kvs arbitrary: row)
  case Nil
  then show ?case by simp
next
  case (Cons kv kvs)
  obtain k' v' where kv: "kv = (k', v')" by (cases kv)
  show ?case
  proof (cases "k' \<in> set hs")
    case False
    then show ?thesis using kv by auto
  next
    case True
    show ?thesis
    proof (cases "add row k' v'")
      case (Inl e)
      then have "e = CannotAddObjectToCell" by (rule add_err)
      with Inl True kv show ?thesis by simp
    next
      case (Inr row')
      then have "\<not> (typeofObject v' \<and> \<not> isArray v')" using add_plain by fastforce
      with Cons.prems kv have "(k, v) \<in> set kvs" by auto
      from Cons.IH [OF this Cons.prems(2), of row'] Inr True kv show ?thesis by auto
    qed
  qed
qed

lemma addObject_error_keeps: "fst (addObject doc obj) \<noteq> None \<Longrightarrow> snd (addObject doc obj) = doc"
  by (auto simp: addObject_def split: sum.splits if_splits)


subsection \<open>Serialisation\<close>

text \<open>
  C7. The document with the default qualifier and delimiter, headers \<^verbatim>\<open>[a, b]\<close> and the
  one entry \<^verbatim>\<open>{a: "x", b: "y"}\<close> is written as \<^verbatim>\<open>"a","b"\<close>, a newline,
  \<^verbatim>\<open>"x","y"\<close>. In general the text is the rows joined by newlines (so none follows the
  last row), each row its fields joined by the delimiter, each field wrapped in the
  qualifier; \<^verbatim>\<open>null\<close>, \<^verbatim>\<open>undefined\<close> and the empty string give an empty field, the
  number 0 gives \<^verbatim>\<open>0\<close>. (A field whose data cannot be converted to a string makes
  \<^verbatim>\<open>writeFile\<close> throw instead.)
\<close>

theorem writeFile_serialises:
  "writeFile (snd (addObject (CSV_new [''a'', ''b''])
                     (VObj [(''a'', VStr ''x''), (''b'', VStr ''y'')])))
     = Inr ([CHR 0x22] @ ''a'' @ [CHR 0x22] @ '','' @ [CHR 0x22] @ ''b'' @ [CHR 0x22]
            @ [CHR 0x0A]
            @ [CHR 0x22] @ ''x'' @ [CHR 0x22] @ '','' @ [CHR 0x22] @ ''y'' @ [CHR 0x22])
   \<and> (\<forall>doc rows. collectLines (entries doc) = Inr rows \<and> list_all (list_all writable) rows \<longrightarrow>
         writeFile doc =
           Inr (join [CHR 0x0A]
                  (map (\<lambda>line. join (delimeter doc) (map (writeField (qualifier doc)) line))
                     (map VStr (csv_headers doc) # rows))))
   \<and> (\<forall>q d. writeField q d =
         q @ (if (d = VNull \<or> \<not> truthy d) \<and> d \<noteq> VNum 0 then [] else toString d) @ q)
   \<and> (\<forall>q. writeField q VNull = q @ q \<and> writeField q VUndef = q @ q
          \<and> writeField q (VStr []) = q @ q \<and> writeField q (VNum 0) = q @ ''0'' @ q)"
proof (intro conjI allI impI)
  show "writeFile (snd (addObject (CSV_new [''a'', ''b''])
                     (VObj [(''a'', VStr ''x''), (''b'', VStr ''y'')])))
     = Inr ([CHR 0x22] @ ''a'' @ [CHR 0x22] @ '','' @ [CHR 0x22] @ ''b'' @ [CHR 0x22]
            @ [CHR 0x0A]
            @ [CHR 0x22] @ ''x'' @ [CHR 0x22] @ '','' @ [CHR 0x22] @ ''y'' @ [CHR 0x22])"
    by (simp add: writeFile_def addObject_def CSV_new_def object_entries_def add_def
          indexOf_def data_at_def data_put_def getOutputRows_def js_get_def js_set_def
          writeField_def writeRows_join findSlot.simps writable_def)
next
  fix doc :: csv and rows
  assume "collectLines (entries doc) = Inr rows \<and> list_all (list_all writable) rows"
  then show "writeFile doc =
           Inr (join [CHR 0x0A]
                  (map (\<lambda>line. join (delimeter doc) (map (writeField (qualifier doc)) line))
                     (map VStr (csv_headers doc) # rows)))"
    by (simp add: writeFile_def writeRows_join writable_def list_all_iff)
next
  fix q d
  show "writeField q d =
         q @ (if (d = VNull \<or> \<not> truthy d) \<and> d \<noteq> VNum 0 then [] else toString d) @ q"
    by (simp add: writeField_def)
qed (simp_all add: writeField_def show_int_def)

theorem writeFile_serialises_witness:
  "collectLines (entries (CSV_new [''h''])) = Inr []
   \<and> writeFile (CSV_new [''h'']) = Inr ([CHR 0x22] @ ''h'' @ [CHR 0x22])
   \<and> writeField ''|'' (VNum 0) = ''|0|''"
proof -
  have c: "collectLines (entries (CSV_new [''h''])) = Inr [] \<and> list_all (list_all writable) []"
    by (simp add: CSV_new_def)
  from writeFile_serialises have
    g: "\<And>doc rows. collectLines (entries doc) = Inr rows \<and> list_all (list_all writable) rows \<Longrightarrow>
         writeFile doc =
           Inr (join [CHR 0x0A]
                  (map (\<lambda>line. join (delimeter doc) (map (writeField (qualifier doc)) line))
                     (map VStr (csv_headers doc) # rows)))"
    and z: "\<And>q. writeField q (VNum 0) = q @ ''0'' @ q"
    by blast+
  from g [OF c] z [of "''|''"] c show ?thesis
    by (simp add: CSV_new_def writeField_def)
qed

subsection \<open>Errors of addObject\<close>

text \<open>
  The key-count check throws a \<^verbatim>\<open>ReferenceError\<close> whenever it fires, for every document
  and every object or array: the message it is about to throw cannot be built.
\<close>

lemma addObject_key_count:
  "typeofObject obj \<Longrightarrow> object_entries obj = Inr kvs \<Longrightarrow>
   length kvs \<noteq> length (csv_headers doc) \<Longrightarrow>
   addObject doc obj = (Some ReferenceError, doc)"
  by (simp add: addObject_def)

text \<open>
  When the key count is the header count, every value is a scalar or an array, and some
  key is no header, the call throws that the first such key could not be found.
\<close>

lemma addObject_unknown_key:
  assumes "length kvs = length (csv_headers doc)"
    and "list_all (\<lambda>kv. \<not> (typeofObject (snd kv) \<and> \<not> isArray (snd kv))) kvs"
    and "\<not> fst ` set kvs \<subseteq> set (csv_headers doc)"
  shows "\<exists>k. k \<in> fst ` set kvs \<and> k \<notin> set (csv_headers doc) \<and>
             addObject doc (VObj kvs) = (Some (CouldNotFindHeader k), doc)"
proof -
  from assms(3) have "\<exists>kv \<in> set kvs. fst kv \<notin> set (csv_headers doc)" by auto
  from split_list_first_prop [OF this] obtain pre kv post where
    kvs: "kvs = pre @ kv # post" and un: "fst kv \<notin> set (csv_headers doc)"
    and pre: "\<forall>x \<in> set pre. \<not> fst x \<notin> set (csv_headers doc)" by blast
  obtain k v where kv: "kv = (k, v)" by (cases kv)
  from pre have a: "fst ` set pre \<subseteq> set (csv_headers doc)" by auto
  from assms(2) kvs have b: "list_all (\<lambda>kv. \<not> (typeofObject (snd kv) \<and> \<not> isArray (snd kv))) pre"
    by simp
  from un kv have c: "k \<notin> set (csv_headers doc)" by simp
  have "addKeys (csv_headers doc) \<lparr>headers = csv_headers doc, data = [], data_m1 = VUndef\<rparr>
          (pre @ (k, v) # post) = Inl (CouldNotFindHeader k)"
    using a b c by (rule addKeys_unknown)
  with assms(1) kvs kv have "addObject doc (VObj kvs) = (Some (CouldNotFindHeader k), doc)"
    by (simp add: addObject_def object_entries_def)
  moreover from kvs kv have "k \<in> fst ` set kvs" by force
  ultimately show ?thesis using c by blast
qed

text \<open>
  C8. The document has the headers \<^verbatim>\<open>a\<close> and \<^verbatim>\<open>b\<close>. An object with the one key
  \<^verbatim>\<open>a\<close>, and an object with the three keys \<^verbatim>\<open>a\<close>, \<^verbatim>\<open>b\<close>, \<^verbatim>\<open>c\<close>, have a key
  count that differs from the header count. \<^verbatim>\<open>addObject\<close> appends nothing, but what it
  throws is a \<^verbatim>\<open>ReferenceError\<close>, not the error that tells the two counts: the message
  reads \<^verbatim>\<open>headers.length\<close> where the constructor of \<^verbatim>\<open>CSVEntry\<close> reads
  \<^verbatim>\<open>this.headers.length\<close>, and the module has no variable \<^verbatim>\<open>headers\<close>.
\<close>

theorem addObject_key_count_reference_error:
  "addObject (CSV_new [''a'', ''b'']) (VObj [(''a'', VStr ''x'')])
     = (Some ReferenceError, CSV_new [''a'', ''b''])
   \<and> addObject (CSV_new [''a'', ''b''])
        (VObj [(''a'', VStr ''x''), (''b'', VStr ''y''), (''c'', VStr ''z'')])
     = (Some ReferenceError, CSV_new [''a'', ''b''])"
  by (simp add: addObject_def object_entries_def CSV_new_def)

subsection \<open>A line added by addLine\<close>

text \<open>
  C9. When \<^verbatim>\<open>addLine\<close> is called with an array as long as the headers it does not throw
  and pushes the array itself onto the entries; from then on, whatever calls to
  \<^verbatim>\<open>addLine\<close> and \<^verbatim>\<open>addObject\<close> follow, \<^verbatim>\<open>writeFile\<close> throws a type error, since the
  array has no method \<^verbatim>\<open>getOutputRows\<close>.
\<close>

theorem addLine_then_writeFile_throws:
  assumes "length xs = length (csv_headers doc)"
  shows "fst (addLine doc (VArr xs)) = None \<and>
         entries (snd (addLine doc (VArr xs))) = entries doc @ [RawLine (VArr xs)] \<and>
         (\<forall>cs. writeFile (calls (snd (addLine doc (VArr xs))) cs) = Inl TypeError)"
proof -
  have a: "addLine doc (VArr xs) =
      (None, doc\<lparr>entries := entries doc @ [RawLine (VArr xs)], currentLine := VArr xs\<rparr>)"
    using assms by (simp add: addLine_def CSVEntry_new_def)
  have "writeFile (calls (snd (addLine doc (VArr xs))) cs) = Inl TypeError" for cs
  proof -
    obtain m where
      "entries (calls (snd (addLine doc (VArr xs))) cs) = entries (snd (addLine doc (VArr xs))) @ m"
      using calls_entries by blast
    then have "RawLine (VArr xs) \<in> set (entries (calls (snd (addLine doc (VArr xs))) cs))"
      using a by simp
    then show ?thesis by (rule writeFile_raw)
  qed
  with a show ?thesis by simp
qed

theorem addLine_then_writeFile_throws_witness:
  "length [VStr ''x'', VStr ''y''] = length (csv_headers (CSV_new [''a'', ''b''])) \<and>
   fst (addLine (CSV_new [''a'', ''b'']) (VArr [VStr ''x'', VStr ''y''])) = None \<and>
   writeFile (snd (addLine (CSV_new [''a'', ''b'']) (VArr [VStr ''x'', VStr ''y'']))) = Inl TypeError \<and>
   writeFile (calls (snd (addLine (CSV_new [''a'', ''b'']) (VArr [VStr ''x'', VStr ''y''])))
      [AddObject (VObj [(''a'', VStr ''1''), (''b'', VStr ''2'')])]) = Inl TypeError"
proof -
  have h: "length [VStr ''x'', VStr ''y''] = length (csv_headers (CSV_new [''a'', ''b'']))"
    by (simp add: CSV_new_def)
  from addLine_then_writeFile_throws [OF h] have
    a: "fst (addLine (CSV_new [''a'', ''b'']) (VArr [VStr ''x'', VStr ''y''])) = None"
    and b: "\<And>cs. writeFile (calls (snd (addLine (CSV_new [''a'', ''b''])
                     (VArr [VStr ''x'', VStr ''y'']))) cs) = Inl TypeError"
    by blast+
  from b [of "[]"] b [of "[AddObject (VObj [(''a'', VStr ''1''), (''b'', VStr ''2'')])]"] a h
  show ?thesis by simp
qed

subsection \<open>An object in a cell\<close>

text \<open>
  C10. When some value of the object passed to \<^verbatim>\<open>addObject\<close> is itself an object and
  not an array (a mapping, or \<^verbatim>\<open>null\<close>), the call throws and appends nothing; when no earlier check throws first
  (the key count is the header count and every key is a header), what is thrown is
  \<^verbatim>\<open>Cannot add object to cell\<close>. A record with a field that holds a mapping can thus
  never be added to a document.
\<close>

theorem addObject_refuses_object_value:
  assumes "(k, v) \<in> set kvs" and "typeofObject v \<and> \<not> isArray v"
  shows "\<exists>err. addObject doc (VObj kvs) = (Some err, doc) \<and>
           (length kvs = length (csv_headers doc) \<and> fst ` set kvs \<subseteq> set (csv_headers doc)
              \<longrightarrow> err = CannotAddObjectToCell)"
proof (cases "length kvs = length (csv_headers doc)")
  case False
  then show ?thesis by (simp add: addObject_def object_entries_def)
next
  case True
  from addKeys_object_fails [OF assms]
  obtain err where
    "addKeys (csv_headers doc) \<lparr>headers = csv_headers doc, data = [], data_m1 = VUndef\<rparr> kvs = Inl err"
    and "fst ` set kvs \<subseteq> set (csv_headers doc) \<longrightarrow> err = CannotAddObjectToCell"
    by blast
  with True show ?thesis by (simp add: addObject_def object_entries_def)
qed

theorem addObject_refuses_object_value_witness:
  "(''m'', VObj [(''a'', VStr ''1'')]) \<in> set [(''k'', VStr ''x''), (''m'', VObj [(''a'', VStr ''1'')])]
   \<and> addObject (CSV_new [''k'', ''m''])
        (VObj [(''k'', VStr ''x''), (''m'', VObj [(''a'', VStr ''1'')])])
      = (Some CannotAddObjectToCell, CSV_new [''k'', ''m''])"
proof -
  have h: "(''m'', VObj [(''a'', VStr ''1'')])
             \<in> set [(''k'', VStr ''x''), (''m'', VObj [(''a'', VStr ''1'')])]"
    by simp
  have o: "typeofObject (VObj [(''a'', VStr ''1'')]) \<and> \<not> isArray (VObj [(''a'', VStr ''1'')])"
    by simp
  from addObject_refuses_object_value [OF h o, of "CSV_new [''k'', ''m'']"] h
  show ?thesis by (auto simp: CSV_new_def)
qed

section \<open>Properties of getOutputRows\<close>

subsection \<open>Placing the elements of one array cell\<close>

lemma js_get_js_set: "js_get (js_set xs i v) j = (if i = j then v else js_get xs j)"
  by (auto simp: js_get_def js_set_def nth_append)

lemma findSlot_first:
  "k \<le> n \<Longrightarrow> n < length grid \<Longrightarrow>
   (\<forall>i. k \<le> i \<and> i < n \<longrightarrow> truthy (js_get (grid ! i) col)) \<Longrightarrow>
   \<not> truthy (js_get (grid ! n) col) \<Longrightarrow> findSlot grid col k = Inr n"
proof (induction "n - k" arbitrary: k)
  case 0
  then have "k = n" by simp
  with 0 show ?case by (simp add: findSlot.simps)
next
  case (Suc d)
  then have lt: "k < n" by simp
  with Suc.prems have t: "truthy (js_get (grid ! k) col)" by simp
  have "findSlot grid col (Suc k) = Inr n"
    using Suc.hyps(2) lt Suc.prems by (intro Suc.hyps(1)) auto
  with t lt Suc.prems show ?case by (subst findSlot.simps) simp
qed

lemma placeList_append:
  "placeList grid col (xs @ ys) =
     (case placeList grid col xs of Inl err \<Rightarrow> Inl err | Inr grid' \<Rightarrow> placeList grid' col ys)"
  by (induction xs arbitrary: grid) (auto split: sum.splits)

lemma length_stamp [simp]: "length (stamp grid col k vs) = length grid"
  by (simp add: stamp_def)

lemma nth_stamp:
  "r < length grid \<Longrightarrow> stamp grid col k vs ! r =
     (if k \<le> r \<and> r < k + length vs then js_set (grid ! r) col (vs ! (r - k)) else grid ! r)"
  by (simp add: stamp_def)

lemma placeList_fill:
  "k + length vs \<le> length grid \<Longrightarrow>
   (\<forall>i<k. truthy (js_get (grid ! i) col)) \<Longrightarrow>
   (\<forall>i. k \<le> i \<and> i < length grid \<longrightarrow> \<not> truthy (js_get (grid ! i) col)) \<Longrightarrow>
   list_all truthy (butlast vs) \<Longrightarrow>
   placeList grid col vs = Inr (stamp grid col k vs)"
proof (induction vs arbitrary: grid k)
  case Nil
  have "stamp grid col k [] = grid"
    by (rule nth_equalityI) (auto simp: nth_stamp)
  then show ?case by simp
next
  case (Cons v vs)
  have kl: "k < length grid" using Cons.prems(1) by simp
  have slot: "findSlot grid col 0 = Inr k"
    using kl Cons.prems(2,3) by (intro findSlot_first) auto
  let ?g = "grid[k := js_set (grid ! k) col v]"
  show ?case
  proof (cases vs)
    case Nil
    have "stamp grid col k [v] = ?g"
    proof (rule nth_equalityI)
      show "length (stamp grid col k [v]) = length ?g" by simp
    next
      fix i
      assume "i < length (stamp grid col k [v])"
      then show "stamp grid col k [v] ! i = ?g ! i"
        by (cases "i = k") (auto simp: nth_stamp)
    qed
    with slot Nil show ?thesis by simp
  next
    case (Cons w ws)
    with Cons.prems(4) have tv: "truthy v" and rest: "list_all truthy (butlast vs)" by simp_all
    have "placeList ?g col vs = Inr (stamp ?g col (Suc k) vs)"
    proof (rule Cons.IH)
      show "Suc k + length vs \<le> length ?g" using Cons.prems(1) by simp
      show "\<forall>i<Suc k. truthy (js_get (?g ! i) col)"
        using Cons.prems(2) tv kl by (auto simp: nth_list_update js_get_js_set less_Suc_eq)
      show "\<forall>i. Suc k \<le> i \<and> i < length ?g \<longrightarrow> \<not> truthy (js_get (?g ! i) col)"
        using Cons.prems(3) by (auto simp: nth_list_update)
      show "list_all truthy (butlast vs)" by (rule rest)
    qed
    moreover have "stamp ?g col (Suc k) vs = stamp grid col k (v # vs)"
    proof (rule nth_equalityI)
      show "length (stamp ?g col (Suc k) vs) = length (stamp grid col k (v # vs))" by simp
    next
      fix i
      assume "i < length (stamp ?g col (Suc k) vs)"
      then have i: "i < length grid" by simp
      consider "i < k" | "i = k" | "k < i" by linarith
      then show "stamp ?g col (Suc k) vs ! i = stamp grid col k (v # vs) ! i"
      proof cases
        case 1
        then show ?thesis using i by (simp add: nth_stamp)
      next
        case 2
        then show ?thesis using i by (simp add: nth_stamp)
      next
        case 3
        then have "(v # vs) ! (i - k) = vs ! (i - Suc k)" by (simp add: nth_Cons')
        then show ?thesis using 3 i by (auto simp: nth_stamp)
      qed
    qed
    ultimately show ?thesis using slot by simp
  qed
qed

lemma longestOf_single: "longestOf 1 [VArr xs] = max 1 (length xs)"
  by simp

subsection \<open>A falsy element is overwritten\<close>

text \<open>
  C5. Take an entry with one column whose cell is an array in which truthy elements
  \<open>pre\<close> are followed by a falsy element \<open>f\<close> (such as \<^verbatim>\<open>""\<close> or \<^verbatim>\<open>0\<close>) and then by
  a later element \<open>v\<close> and further truthy elements. The slot that received \<open>f\<close> still
  counts as empty, so \<open>v\<close> is written into it: the rows hold \<open>pre\<close>, then \<open>v\<close> and what
  followed it, then one row that stays empty. The value \<open>f\<close> is not in the output.
\<close>

theorem falsy_element_overwritten:
  assumes "list_all truthy pre" and "\<not> truthy f" and "list_all truthy (butlast (v # post))"
  shows "getOutputRows \<lparr>headers = [h], data = [VArr (pre @ f # v # post)], data_m1 = u\<rparr>
           = Inr (map (\<lambda>x. [x]) (pre @ v # post @ [VStr []]))"
proof -
  define n where "n = length pre + 2 + length post"
  define g0 where "g0 = replicate n [VStr []]"
  have g0: "length g0 = n" "\<And>i. i < n \<Longrightarrow> g0 ! i = [VStr []]"
    by (simp_all add: g0_def)
  have long: "longestOf 1 [VArr (pre @ f # v # post)] = n" by (simp add: n_def)
  have one: "placeList g0 0 (pre @ [f]) = Inr (stamp g0 0 0 (pre @ [f]))"
    using assms(1) g0 by (intro placeList_fill) (auto simp: js_get_def n_def)
  define g1 where "g1 = stamp g0 0 0 (pre @ [f])"
  have g1: "length g1 = n"
    "\<And>i. i < n \<Longrightarrow> g1 ! i = (if i < length pre + 1 then [(pre @ [f]) ! i] else [VStr []])"
    using g0 by (auto simp: g1_def nth_stamp js_set_def)
  have two: "placeList g1 0 (v # post) = Inr (stamp g1 0 (length pre) (v # post))"
  proof (rule placeList_fill)
    show "length pre + length (v # post) \<le> length g1" using g1 by (simp add: n_def)
    show "\<forall>i<length pre. truthy (js_get (g1 ! i) 0)"
      using assms(1) g1 by (auto simp: nth_append list_all_length js_get_def n_def)
    show "\<forall>i. length pre \<le> i \<and> i < length g1 \<longrightarrow> \<not> truthy (js_get (g1 ! i) 0)"
      using assms(2) g1 by (auto simp: nth_append js_get_def)
    show "list_all truthy (butlast (v # post))" by (rule assms(3))
  qed
  have "placeList g0 0 (pre @ f # v # post) = Inr (stamp g1 0 (length pre) (v # post))"
    using placeList_append [of g0 0 "pre @ [f]" "v # post"] one two by (simp add: g1_def)
  moreover have "stamp g1 0 (length pre) (v # post) = map (\<lambda>x. [x]) (pre @ v # post @ [VStr []])"
  proof (rule nth_equalityI)
    show "length (stamp g1 0 (length pre) (v # post)) = length (map (\<lambda>x. [x]) (pre @ v # post @ [VStr []]))"
      using g1 by (simp add: n_def)
  next
    fix i
    assume "i < length (stamp g1 0 (length pre) (v # post))"
    then have i: "i < n" using g1 by simp
    then have "i < length pre \<or> i = length pre \<or> (length pre < i \<and> i < length pre + 1 + length post) \<or> i = length pre + 1 + length post"
      by (auto simp: n_def)
    then show "stamp g1 0 (length pre) (v # post) ! i = map (\<lambda>x. [x]) (pre @ v # post @ [VStr []]) ! i"
      using i g1 by (auto simp: nth_stamp nth_append js_set_def nth_Cons n_def split: nat.splits)
  qed
  ultimately show ?thesis
    using long by (simp add: getOutputRows_def g0_def)
qed


theorem falsy_element_overwritten_witness:
  "list_all truthy [VStr ''p''] \<and> \<not> truthy (VNum 0)
   \<and> list_all truthy (butlast [VStr ''x'', VStr ''y''])
   \<and> getOutputRows
        \<lparr>headers = [''a''], data = [VArr [VStr ''p'', VNum 0, VStr ''x'', VStr ''y'']],
         data_m1 = VUndef\<rparr>
       = Inr [[VStr ''p''], [VStr ''x''], [VStr ''y''], [VStr []]]"
  using falsy_element_overwritten
          [of "[VStr ''p'']" "VNum 0" "VStr ''x''" "[VStr ''y'']" "''a''" VUndef]
  by simp

subsection \<open>The block of rows of an entry\<close>

lemma cellLen_VArr [simp]: "cellLen (VArr xs) = length xs"
  by (simp add: cellLen_def)

lemma cellLen_scalar: "\<not> isArray c \<Longrightarrow> cellLen c = 1"
  by (cases c) (simp_all add: cellLen_def)

lemma foldr_max_start: "foldr max ys (max n l) = max l (foldr max ys (n::nat))"
  by (induction ys) auto

lemma foldr_max_ge: "(n::nat) \<le> foldr max ys n"
  by (induction ys) auto

lemma longestOf_foldr: "1 \<le> n \<Longrightarrow> longestOf n cells = foldr max (map cellLen cells) n"
proof (induction cells arbitrary: n)
  case Nil
  then show ?case by simp
next
  case (Cons c cells)
  show ?case
  proof (cases "isArray c")
    case True
    then obtain xs where VArr: "c = VArr xs" by (cases c) auto
    have "longestOf n (c # cells) = longestOf (max n (length xs)) cells"
      using VArr by (simp add: max_def)
    also have "\<dots> = foldr max (map cellLen cells) (max n (length xs))"
      using Cons.prems by (intro Cons.IH) simp
    also have "\<dots> = max (length xs) (foldr max (map cellLen cells) n)"
      by (rule foldr_max_start)
    finally show ?thesis using VArr by simp
  next
    case False
    then have "longestOf n (c # cells) = longestOf n cells" by (cases c) simp_all
    also have "\<dots> = foldr max (map cellLen cells) n" using Cons.prems by (rule Cons.IH)
    finally have eq: "longestOf n (c # cells) = foldr max (map cellLen cells) n" .
    have "1 \<le> foldr max (map cellLen cells) n"
      using Cons.prems foldr_max_ge [of n "map cellLen cells"] by linarith
    then have "max 1 (foldr max (map cellLen cells) n) = foldr max (map cellLen cells) n"
      by (rule max_absorb2)
    with eq False show ?thesis by (simp add: cellLen_scalar)
  qed
qed

lemma longestOf_height: "longestOf 1 cells = height cells"
  by (simp add: longestOf_foldr height_def)

lemma cellLen_le_height: "cell \<in> set cells \<Longrightarrow> cellLen cell \<le> height cells"
  unfolding height_def by (induction cells) (auto simp: max_def)

lemma height_pos: "0 < height cells"
  unfolding height_def using foldr_max_ge [of 1 "map cellLen cells"] by simp

lemma fillCols_scalar:
  "\<not> isArray cell \<Longrightarrow> fillCols (row0 # rows) col (cell # rest) =
     fillCols (js_set row0 col cell # rows) (Suc col) rest"
  by (cases cell) simp_all

lemma cellAt_scalar: "\<not> isArray cell \<Longrightarrow> cellAt cell r = (if r = 0 then cell else VStr [])"
  by (cases cell) (simp_all add: cellAt_def)

lemma fillCols_fill:
  "length grid = h \<Longrightarrow> 0 < h \<Longrightarrow> (\<forall>r<h. length (grid ! r) = w) \<Longrightarrow> col + length cells \<le> w \<Longrightarrow>
   (\<forall>r<h. \<forall>c. col \<le> c \<and> c < w \<longrightarrow> grid ! r ! c = VStr []) \<Longrightarrow>
   (\<forall>vs. VArr vs \<in> set cells \<longrightarrow> length vs \<le> h \<and> list_all truthy (butlast vs)) \<Longrightarrow>
   \<exists>rows. fillCols grid col cells = Inr rows \<and> length rows = h \<and> (\<forall>r<h. length (rows ! r) = w) \<and>
     (\<forall>r<h. \<forall>c<w. rows ! r ! c =
        (if col \<le> c \<and> c < col + length cells then cellAt (cells ! (c - col)) r else grid ! r ! c))"
proof (induction cells arbitrary: grid col)
  case Nil
  then show ?case by auto
next
  case (Cons cell cells)
  have cw: "col < w" using Cons.prems(4) by simp
  have step: "\<exists>g. fillCols grid col (cell # cells) = fillCols g (Suc col) cells \<and> length g = h \<and>
      (\<forall>r<h. length (g ! r) = w) \<and>
      (\<forall>r<h. \<forall>c<w. g ! r ! c = (if c = col then cellAt cell r else grid ! r ! c))"
  proof (cases "isArray cell")
    case True
    then obtain vs where VArr: "cell = VArr vs" by (cases cell) auto
    with Cons.prems(6) have len: "length vs \<le> h" and tr: "list_all truthy (butlast vs)" by auto
    have "placeList grid col vs = Inr (stamp grid col 0 vs)"
      using len tr Cons.prems(1,3,5) cw by (intro placeList_fill) (auto simp: js_get_def)
    moreover have "\<forall>r<h. length (stamp grid col 0 vs ! r) = w"
      using Cons.prems(1,3) cw by (auto simp: nth_stamp js_set_def)
    moreover have "\<forall>r<h. \<forall>c<w. stamp grid col 0 vs ! r ! c = (if c = col then cellAt cell r else grid ! r ! c)"
      using Cons.prems(1,3,5) cw VArr by (auto simp: nth_stamp js_set_def cellAt_def)
    ultimately show ?thesis using VArr Cons.prems(1) by auto
  next
    case na: False
    obtain row0 rows where g: "grid = row0 # rows" using Cons.prems(1,2) by (cases grid) auto
    have "\<forall>r<h. length ((js_set row0 col cell # rows) ! r) = w"
      using Cons.prems(1,3) cw g by (auto simp: js_set_def nth_Cons split: nat.splits)
    moreover have "\<forall>r<h. \<forall>c<w. (js_set row0 col cell # rows) ! r ! c = (if c = col then cellAt cell r else grid ! r ! c)"
    proof (intro allI impI)
      fix r c
      assume r: "r < h" and c: "c < w"
      show "(js_set row0 col cell # rows) ! r ! c = (if c = col then cellAt cell r else grid ! r ! c)"
      proof (cases r)
        case 0
        then show ?thesis using Cons.prems(1,3) cw g na c r
          by (auto simp: js_set_def cellAt_scalar)
      next
        case (Suc r')
        then show ?thesis using Cons.prems(1,5) cw g na c r
          by (auto simp: cellAt_scalar)
      qed
    qed
    ultimately show ?thesis using fillCols_scalar [OF na] g Cons.prems(1) by auto
  qed
  then obtain g where g: "fillCols grid col (cell # cells) = fillCols g (Suc col) cells"
    "length g = h" "\<forall>r<h. length (g ! r) = w"
    "\<forall>r<h. \<forall>c<w. g ! r ! c = (if c = col then cellAt cell r else grid ! r ! c)"
    by blast
  have "\<exists>rows. fillCols g (Suc col) cells = Inr rows \<and> length rows = h \<and> (\<forall>r<h. length (rows ! r) = w) \<and>
     (\<forall>r<h. \<forall>c<w. rows ! r ! c =
        (if Suc col \<le> c \<and> c < Suc col + length cells then cellAt (cells ! (c - Suc col)) r else g ! r ! c))"
  proof (rule Cons.IH)
    show "length g = h" by (rule g(2))
    show "0 < h" by (rule Cons.prems(2))
    show "\<forall>r<h. length (g ! r) = w" by (rule g(3))
    show "Suc col + length cells \<le> w" using Cons.prems(4) by simp
    show "\<forall>r<h. \<forall>c. Suc col \<le> c \<and> c < w \<longrightarrow> g ! r ! c = VStr []"
      using g(4) Cons.prems(5) by auto
    show "\<forall>vs. VArr vs \<in> set cells \<longrightarrow> length vs \<le> h \<and> list_all truthy (butlast vs)"
      using Cons.prems(6) by auto
  qed
  then obtain rows where rows: "fillCols g (Suc col) cells = Inr rows" "length rows = h"
    "\<forall>r<h. length (rows ! r) = w"
    "\<forall>r<h. \<forall>c<w. rows ! r ! c =
        (if Suc col \<le> c \<and> c < Suc col + length cells then cellAt (cells ! (c - Suc col)) r else g ! r ! c)"
    by blast
  have "\<forall>r<h. \<forall>c<w. rows ! r ! c =
        (if col \<le> c \<and> c < col + length (cell # cells) then cellAt ((cell # cells) ! (c - col)) r else grid ! r ! c)"
  proof (intro allI impI)
    fix r c
    assume r: "r < h" and c: "c < w"
    consider "c < col" | "c = col" | "col < c" by linarith
    then show "rows ! r ! c =
        (if col \<le> c \<and> c < col + length (cell # cells) then cellAt ((cell # cells) ! (c - col)) r else grid ! r ! c)"
    proof cases
      case 1
      then show ?thesis using rows(4) g(4) r c by simp
    next
      case 2
      then show ?thesis using rows(4) g(4) r c by simp
    next
      case 3
      then have "(cell # cells) ! (c - col) = cells ! (c - Suc col)" by (simp add: nth_Cons')
      then show ?thesis using 3 rows(4) g(4) r c by auto
    qed
  qed
  with g(1) rows(1,2,3) show ?case by simp
qed

text \<open>
  When the cells of an entry are as many as its headers and no array cell holds a falsy
  element before its last one, \<^verbatim>\<open>getOutputRows\<close> returns as many rows as the longest
  array cell is long (at least one), each as wide as the headers, and column \<open>c\<close> holds
  the elements of an array cell from the first row down, one per row, or a cell that is
  no array in the first row; every other slot is the empty string.
\<close>

theorem getOutputRows_places_values:
  assumes "length (data e) = length (headers e)"
    and "\<forall>vs. VArr vs \<in> set (data e) \<longrightarrow> list_all truthy (butlast vs)"
  shows "\<exists>rows. getOutputRows e = Inr rows \<and> length rows = height (data e) \<and>
           (\<forall>r<length rows. length (rows ! r) = length (headers e)) \<and>
           (\<forall>r<length rows. \<forall>c<length (headers e). rows ! r ! c = cellAt (data e ! c) r)"
proof -
  define h where "h = height (data e)"
  define w where "w = length (headers e)"
  define g0 where "g0 = replicate h (replicate w (VStr []))"
  have "\<exists>rows. fillCols g0 0 (data e) = Inr rows \<and> length rows = h \<and> (\<forall>r<h. length (rows ! r) = w) \<and>
     (\<forall>r<h. \<forall>c<w. rows ! r ! c =
        (if 0 \<le> c \<and> c < 0 + length (data e) then cellAt (data e ! (c - 0)) r else g0 ! r ! c))"
  proof (rule fillCols_fill)
    show "length g0 = h" by (simp add: g0_def)
    show "0 < h" by (simp add: h_def height_pos)
    show "\<forall>r<h. length (g0 ! r) = w" by (simp add: g0_def)
    show "0 + length (data e) \<le> w" using assms(1) by (simp add: w_def)
    show "\<forall>r<h. \<forall>c. 0 \<le> c \<and> c < w \<longrightarrow> g0 ! r ! c = VStr []" by (simp add: g0_def)
    show "\<forall>vs. VArr vs \<in> set (data e) \<longrightarrow> length vs \<le> h \<and> list_all truthy (butlast vs)"
      using assms(2) cellLen_le_height [of _ "data e"] by (fastforce simp: h_def)
  qed
  then obtain rows where rows: "fillCols g0 0 (data e) = Inr rows" "length rows = h"
    "\<forall>r<h. length (rows ! r) = w"
    "\<forall>r<h. \<forall>c<w. rows ! r ! c =
        (if 0 \<le> c \<and> c < 0 + length (data e) then cellAt (data e ! (c - 0)) r else g0 ! r ! c)"
    by blast
  have "getOutputRows e = fillCols g0 0 (data e)"
    unfolding getOutputRows_def longestOf_height g0_def h_def w_def by (rule refl)
  with rows assms(1) show ?thesis by (auto simp: h_def w_def)
qed

theorem getOutputRows_places_values_witness:
  "getOutputRows \<lparr>headers = [''a'', ''b''],
                   data = [VStr ''x'', VArr [VStr ''1'', VStr ''2'', VStr ''3'']],
                   data_m1 = VUndef\<rparr>
     = Inr [[VStr ''x'', VStr ''1''], [VStr [], VStr ''2''], [VStr [], VStr ''3'']]
   \<and> height [VStr ''x'', VArr [VStr ''1'', VStr ''2'', VStr ''3'']] = 3"
proof -
  let ?e = "\<lparr>headers = [''a'', ''b''],
             data = [VStr ''x'', VArr [VStr ''1'', VStr ''2'', VStr ''3'']],
             data_m1 = VUndef\<rparr>"
  have a: "length (data ?e) = length (headers ?e)" by simp
  have b: "\<forall>vs. VArr vs \<in> set (data ?e) \<longrightarrow> list_all truthy (butlast vs)" by simp
  from getOutputRows_places_values [OF a b] obtain rows where
    r: "getOutputRows ?e = Inr rows" and "length rows = height (data ?e)"
    by blast
  moreover have "getOutputRows ?e
       = Inr [[VStr ''x'', VStr ''1''], [VStr [], VStr ''2''], [VStr [], VStr ''3'']]"
    by (simp add: getOutputRows_def js_get_def js_set_def findSlot.simps)
  ultimately show ?thesis by (simp add: height_def cellLen_def)
qed

text \<open>
  C1. The claim holds of the entries of the theorem above and fails where an array cell
  holds a falsy element before its last one: the entry \<^verbatim>\<open>addObject\<close> builds from
  \<^verbatim>\<open>{a: "x", b: [0, "1"]}\<close> gives the rows \<^verbatim>\<open>["x", "1"]\<close> and \<^verbatim>\<open>["", ""]\<close>,
  and the value \<^verbatim>\<open>0\<close> of the array is in neither.
\<close>

theorem falsy_list_value_lost:
  "addObject (CSV_new [''a'', ''b''])
      (VObj [(''a'', VStr ''x''), (''b'', VArr [VNum 0, VStr ''1''])])
     = (None, (CSV_new [''a'', ''b''])
                \<lparr>entries := [EntryObj \<lparr>headers = [''a'', ''b''],
                                       data = [VStr ''x'', VArr [VNum 0, VStr ''1'']],
                                       data_m1 = VUndef\<rparr>]\<rparr>)
   \<and> getOutputRows \<lparr>headers = [''a'', ''b''],
                     data = [VStr ''x'', VArr [VNum 0, VStr ''1'']], data_m1 = VUndef\<rparr>
       = Inr [[VStr ''x'', VStr ''1''], [VStr [], VStr []]]"
  by (simp add: addObject_def object_entries_def CSV_new_def add_def indexOf_def data_at_def
        data_put_def getOutputRows_def js_get_def js_set_def findSlot.simps)

section \<open>Properties of the header objects and of putDataInObject\<close>

subsection \<open>Assigning to a record\<close>

lemma map_of_replace:
  "map_of (map (\<lambda>kv. if fst kv = k then (k, v) else kv) kvs) k' =
     (if k' = k \<and> k \<in> fst ` set kvs then Some v else map_of kvs k')"
  by (induction kvs) (force split: if_splits)+

lemma map_of_insert_other:
  "k' \<noteq> k \<Longrightarrow> map_of (xs @ (k, v) # ys) k' = map_of (xs @ ys) k'"
  by (simp add: map_add_def split: option.splits)

lemma map_of_obj_set: "map_of (obj_set kvs k v) = (map_of kvs)(k \<mapsto> v)"
proof (cases "k \<in> fst ` set kvs")
  case True
  then show ?thesis by (auto simp: obj_set_def map_of_replace fun_eq_iff)
next
  case False
  then have none: "map_of kvs k = None" by (simp add: map_of_eq_None_iff)
  show ?thesis
  proof (cases "arrayIndex k")
    case None
    with False none show ?thesis by (auto simp: obj_set_def fun_eq_iff map_add_def split: option.splits)
  next
    case (Some n)
    have "map_of (takeWhile (comesBefore n) kvs @ (k, v) # dropWhile (comesBefore n) kvs) k' =
          ((map_of kvs)(k \<mapsto> v)) k'" for k'
    proof (cases "k' = k")
      case True
      have "k \<notin> fst ` set (takeWhile (comesBefore n) kvs)"
        using False set_takeWhileD by fastforce
      then have "map_of (takeWhile (comesBefore n) kvs) k = None" by (simp add: map_of_eq_None_iff)
      with True show ?thesis by (simp add: map_add_def)
    next
      case False
      have "map_of (takeWhile (comesBefore n) kvs @ (k, v) # dropWhile (comesBefore n) kvs) k'
            = map_of (takeWhile (comesBefore n) kvs @ dropWhile (comesBefore n) kvs) k'"
        using False by (rule map_of_insert_other)
      then show ?thesis using False by simp
    qed
    with False Some show ?thesis by (auto simp: obj_set_def fun_eq_iff)
  qed
qed

lemma obj_get_obj_set: "obj_get (obj_set kvs k v) k' = (if k' = k then v else obj_get kvs k')"
  by (simp add: obj_get_def map_of_obj_set)

lemma group_primitive: "\<not> typeofObject (group m i)"
  by (simp add: group_def split: option.splits)

lemma obj_put_primitive:
  "\<not> typeofObject v \<Longrightarrow> obj_put kvs key v = Inr (assignPair kvs (key, v))"
  by (auto simp: obj_put_def assignPair_def)

lemma obj_put_plain: "key \<noteq> ''__proto__'' \<Longrightarrow> obj_put kvs key v = Inr (obj_set kvs key v)"
  by (simp add: obj_put_def)

lemma obj_get_assignPair:
  "k' \<noteq> ''__proto__'' \<Longrightarrow>
   obj_get (assignPair kvs (k, v)) k' = (if k' = k then v else obj_get kvs k')"
  by (auto simp: assignPair_def obj_get_obj_set)

lemma map_of_foldl_assignPair:
  "key \<noteq> ''__proto__'' \<Longrightarrow> map_of (foldl assignPair base pairs) key = map_of (rev pairs @ base) key"
proof (induction pairs arbitrary: base)
  case Nil
  then show ?case by simp
next
  case (Cons p pairs)
  have "map_of (foldl assignPair (assignPair base p) pairs) key
        = map_of (rev pairs @ assignPair base p) key"
    using Cons.prems by (rule Cons.IH)
  also have "\<dots> = map_of (rev pairs @ p # base) key"
    using Cons.prems
    by (cases p) (auto simp: assignPair_def map_of_obj_set map_add_def split: option.splits)
  finally show ?case by simp
qed

lemma mapParts_all:
  "list_all (\<lambda>p. fragmentPair E re p \<noteq> None) parts \<Longrightarrow>
   mapParts E re dataArr parts (VObj base) =
     Inr (VObj (foldl assignPair base (map (the \<circ> fragmentPair E re) parts)))"
proof (induction parts arbitrary: base)
  case Nil
  then show ?case by simp
next
  case (Cons p parts)
  then show ?case
    by (auto simp: fragmentPair_def prop_assign_def obj_put_primitive group_primitive
             split: option.splits)
qed

lemma mapParts_some_fail:
  "list_all (\<lambda>p. p \<noteq> None) parts \<Longrightarrow> \<not> list_all (\<lambda>p. fragmentPair E re p \<noteq> None) parts \<Longrightarrow>
   mapParts E re dataArr parts (VObj base) = Inr dataArr"
proof (induction parts arbitrary: base)
  case Nil
  then show ?case by simp
next
  case (Cons p parts)
  then show ?case
    by (auto simp: fragmentPair_def prop_assign_def obj_put_primitive group_primitive
             split: option.splits)
qed

subsection \<open>The table functions stop at the first row that throws\<close>

lemma putDataInObject_split:
  "length c1 = length h1 \<Longrightarrow>
   putDataInObject E (c1 @ c # c2) (h1 @ Some h # h2) d =
     (case putDataInObject E c1 h1 d of
        Inl err \<Rightarrow> Inl err
      | Inr d' \<Rightarrow>
          (case putColumn E c h d' of
             Inl err \<Rightarrow> Inl err
           | Inr d'' \<Rightarrow> putDataInObject E c2 h2 d''))"
proof (induction c1 arbitrary: h1 d)
  case Nil
  then show ?case by simp
next
  case (Cons x xs)
  then obtain y ys where h1: "h1 = y # ys" and len: "length xs = length ys"
    by (cases h1) auto
  show ?case
  proof (cases y)
    case None
    with h1 Cons.IH [OF len] show ?thesis by simp
  next
    case (Some hy)
    with h1 Cons.IH [OF len] show ?thesis by (simp split: sum.splits)
  qed
qed

lemma rows_fail_any:
  "rowToObj E row hs = Inl err \<Longrightarrow> \<exists>err'. rowsToArrayOfObj E (before @ row # after) hs = Inl err'"
  by (induction before) (auto split: sum.splits)

lemma rows_fail_first:
  "rowsToArrayOfObj E before hs = Inr objs \<Longrightarrow> rowToObj E row hs = Inl err \<Longrightarrow>
   rowsToArrayOfObj E (before @ row # after) hs = Inl err"
  by (induction before arbitrary: objs) (auto split: sum.splits)


lemma putDataInObject_single:
  "putDataInObject E [cell] [Some h] d = putColumn E cell h d"
  by (simp split: sum.splits)

lemma processHeader_transform:
  "processHeader E tpl = Inr h \<Longrightarrow> transformDataRegex tpl = Some (name, pat) \<Longrightarrow>
   htype h = Transform name (RegExp pat)"
  by (auto simp: processHeader_def RegExp_new_def split: option.splits sum.splits if_splits)

subsection \<open>The template patterns\<close>

text \<open>
  The search of \<open>lazyPair\<close> finds a match whenever the string has one, and the match it
  finds is the first in the order of the engine.
\<close>

lemma startsWith_append [simp]: "startsWith p (p @ r)"
  by (simp add: startsWith_def)

lemma startsWith_D: "startsWith p s \<Longrightarrow> s = p @ drop (length p) s"
  by (metis append_take_drop_id startsWith_def)

lemma lazyUntil_Some:
  "lazyUntil cl acc s = Some (g, rest) \<Longrightarrow>
   \<exists>g'. g = acc @ g' \<and> g' \<noteq> [] \<and> s = g' @ cl @ rest \<and> list_all (\<lambda>c. \<not> isLineTerminator c) g'
        \<and> (\<forall>h r. s = h @ cl @ r \<and> h \<noteq> [] \<longrightarrow> length g' \<le> length h)"
proof (induction s arbitrary: acc)
  case Nil
  then show ?case by simp
next
  case (Cons c cs)
  from Cons.prems have nl: "\<not> isLineTerminator c" by (auto split: if_splits)
  show ?case
  proof (cases "startsWith cl cs")
    case True
    with Cons.prems nl have g: "g = acc @ [c]" and rest: "rest = drop (length cl) cs" by auto
    from startsWith_D [OF True] rest have "c # cs = [c] @ cl @ rest" by simp
    moreover have "\<forall>h r. c # cs = h @ cl @ r \<and> h \<noteq> [] \<longrightarrow> length [c] \<le> length h"
      by (auto simp: Suc_le_eq)
    ultimately show ?thesis using g nl by (intro exI [of _ "[c]"]) simp
  next
    case False
    with Cons.prems nl have "lazyUntil cl (acc @ [c]) cs = Some (g, rest)" by simp
    from Cons.IH [OF this] obtain g' where
      g: "g = (acc @ [c]) @ g'" and ne: "g' \<noteq> []" and cs: "cs = g' @ cl @ rest"
      and lt: "list_all (\<lambda>c. \<not> isLineTerminator c) g'"
      and mn: "\<forall>h r. cs = h @ cl @ r \<and> h \<noteq> [] \<longrightarrow> length g' \<le> length h"
      by blast
    have "length (c # g') \<le> length h" if h: "c # cs = h @ cl @ r" "h \<noteq> []" for h r
    proof -
      from h obtain t where t: "h = c # t" and cs': "cs = t @ cl @ r" by (cases h) auto
      from cs' False have "t \<noteq> []" by auto
      with mn cs' have "length g' \<le> length t" by blast
      with t show ?thesis by simp
    qed
    with g cs lt nl show ?thesis by (intro exI [of _ "c # g'"]) simp
  qed
qed

lemma lazyUntil_complete:
  "h \<noteq> [] \<Longrightarrow> list_all (\<lambda>c. \<not> isLineTerminator c) h \<Longrightarrow> lazyUntil cl acc (h @ cl @ r) \<noteq> None"
proof (induction h arbitrary: acc)
  case Nil
  then show ?case by simp
next
  case (Cons c t)
  show ?case
  proof (cases "t = []")
    case True
    with Cons.prems show ?thesis by simp
  next
    case False
    with Cons.prems Cons.IH [OF False, of "acc @ [c]"] show ?thesis by simp
  qed
qed

lemma lazyPairAt_Some:
  "lazyPairAt opn cl acc s = Some (g1, g2, rest) \<Longrightarrow>
   \<exists>g'. g1 = acc @ g' \<and> matchOf opn cl s ([], g', g2, rest)
        \<and> (\<forall>h1 h2 r. matchOf opn cl s ([], h1, h2, r) \<longrightarrow> earlier ([], g', g2, rest) ([], h1, h2, r))"
proof (induction s arbitrary: acc)
  case Nil
  then show ?case by simp
next
  case (Cons c cs)
  from Cons.prems have nl: "\<not> isLineTerminator c" by (auto split: if_splits)
  let ?now = "startsWith opn cs \<and> lazyUntil cl [] (drop (length opn) cs) \<noteq> None"
  show ?case
  proof (cases ?now)
    case True
    then obtain g r where u: "lazyUntil cl [] (drop (length opn) cs) = Some (g, r)" by auto
    with True Cons.prems nl have g1: "g1 = acc @ [c]" and "g2 = g" and "rest = r" by auto
    with u have u': "lazyUntil cl [] (drop (length opn) cs) = Some (g2, rest)" by simp
    from lazyUntil_Some [OF u'] have
      ne: "g2 \<noteq> []" and d: "drop (length opn) cs = g2 @ cl @ rest"
      and lt: "list_all (\<lambda>c. \<not> isLineTerminator c) g2"
      and mn: "\<forall>h r. drop (length opn) cs = h @ cl @ r \<and> h \<noteq> [] \<longrightarrow> length g2 \<le> length h"
      by auto
    from True startsWith_D d have cs: "cs = opn @ g2 @ cl @ rest" by metis
    have m: "matchOf opn cl (c # cs) ([], [c], g2, rest)"
      using cs ne lt nl by (simp add: matchOf_def)
    have "earlier ([], [c], g2, rest) ([], h1, h2, r)" if "matchOf opn cl (c # cs) ([], h1, h2, r)" for h1 h2 r
    proof -
      from that have e: "c # cs = h1 @ opn @ h2 @ cl @ r" and h1: "h1 \<noteq> []" and h2: "h2 \<noteq> []"
        by (simp_all add: matchOf_def)
      from e h1 obtain t where t: "h1 = c # t" and cs': "cs = t @ opn @ h2 @ cl @ r" by (cases h1) auto
      show ?thesis
      proof (cases "t = []")
        case True
        with cs' have "drop (length opn) cs = h2 @ cl @ r" by simp
        with mn h2 have "length g2 \<le> length h2" by blast
        with t True show ?thesis by (simp add: earlier_def)
      next
        case False
        with t show ?thesis by (simp add: earlier_def Suc_lessI)
      qed
    qed
    with g1 m show ?thesis by blast
  next
    case False
    with Cons.prems nl have "lazyPairAt opn cl (acc @ [c]) cs = Some (g1, g2, rest)"
      by (auto split: option.splits if_splits)
    from Cons.IH [OF this] obtain g' where
      g: "g1 = (acc @ [c]) @ g'" and m: "matchOf opn cl cs ([], g', g2, rest)"
      and mn: "\<forall>h1 h2 r. matchOf opn cl cs ([], h1, h2, r) \<longrightarrow> earlier ([], g', g2, rest) ([], h1, h2, r)"
      by blast
    have m': "matchOf opn cl (c # cs) ([], c # g', g2, rest)"
      using m nl by (simp add: matchOf_def)
    have "earlier ([], c # g', g2, rest) ([], h1, h2, r)" if "matchOf opn cl (c # cs) ([], h1, h2, r)" for h1 h2 r
    proof -
      from that have e: "c # cs = h1 @ opn @ h2 @ cl @ r" and h1: "h1 \<noteq> []" and h2: "h2 \<noteq> []"
        and lt: "list_all (\<lambda>c. \<not> isLineTerminator c) (h1 @ h2)"
        by (simp_all add: matchOf_def)
      from e h1 obtain t where t: "h1 = c # t" and cs': "cs = t @ opn @ h2 @ cl @ r" by (cases h1) auto
      have "t \<noteq> []"
      proof
        assume "t = []"
        with cs' have "startsWith opn cs" and "drop (length opn) cs = h2 @ cl @ r" by simp_all
        moreover have "lazyUntil cl [] (h2 @ cl @ r) \<noteq> None"
          using h2 lt by (intro lazyUntil_complete) simp_all
        ultimately show False using False by simp
      qed
      with cs' lt t h2 have "matchOf opn cl cs ([], t, h2, r)" by (simp add: matchOf_def)
      with mn have "earlier ([], g', g2, rest) ([], t, h2, r)" by blast
      with t show ?thesis by (simp add: earlier_def)
    qed
    with g m' show ?thesis by (intro exI [of _ "c # g'"]) simp
  qed
qed

lemma lazyPairAt_complete:
  "matchOf opn cl s ([], h1, h2, r) \<Longrightarrow> lazyPairAt opn cl acc s \<noteq> None"
proof (induction h1 arbitrary: acc s)
  case Nil
  then show ?case by (simp add: matchOf_def)
next
  case (Cons c t)
  from Cons.prems have s: "s = c # t @ opn @ h2 @ cl @ r" and nl: "\<not> isLineTerminator c"
    and h2: "h2 \<noteq> []" and lt: "list_all (\<lambda>c. \<not> isLineTerminator c) (t @ h2)"
    by (simp_all add: matchOf_def)
  show ?case
  proof (cases "t = []")
    case True
    have "lazyUntil cl [] (h2 @ cl @ r) \<noteq> None"
      using h2 lt by (intro lazyUntil_complete) simp_all
    with True s nl show ?thesis by auto
  next
    case False
    with lt h2 have "matchOf opn cl (t @ opn @ h2 @ cl @ r) ([], t, h2, r)" by (simp add: matchOf_def)
    from Cons.IH [OF this, of "acc @ [c]"] s nl show ?thesis
      by (auto split: option.splits)
  qed
qed

lemma lazyPair_Some:
  "lazyPair opn cl pre s = Some (p, g1, g2, rest) \<Longrightarrow>
   \<exists>p'. p = pre @ p' \<and> matchOf opn cl s (p', g1, g2, rest)
        \<and> (\<forall>m. matchOf opn cl s m \<longrightarrow> earlier (p', g1, g2, rest) m)"
proof (induction s arbitrary: pre)
  case Nil
  then show ?case by simp
next
  case (Cons c cs)
  show ?case
  proof (cases "lazyPairAt opn cl [] (c # cs)")
    case (Some a)
    with Cons.prems have a: "a = (g1, g2, rest)" and p: "p = pre" by (auto split: prod.splits)
    from lazyPairAt_Some [OF Some [unfolded a]] have
      m: "matchOf opn cl (c # cs) ([], g1, g2, rest)"
      and mn: "\<forall>h1 h2 r. matchOf opn cl (c # cs) ([], h1, h2, r) \<longrightarrow> earlier ([], g1, g2, rest) ([], h1, h2, r)"
      by auto
    have "earlier ([], g1, g2, rest) m'" if "matchOf opn cl (c # cs) m'" for m'
    proof -
      obtain q h1 h2 r where m': "m' = (q, h1, h2, r)" by (cases m') auto
      show ?thesis
      proof (cases "q = []")
        case True
        with that m' mn show ?thesis by blast
      next
        case False
        with m' show ?thesis by (simp add: earlier_def)
      qed
    qed
    with m p show ?thesis by (intro exI [of _ "[]"]) simp
  next
    case None
    with Cons.prems have "lazyPair opn cl (pre @ [c]) cs = Some (p, g1, g2, rest)" by simp
    from Cons.IH [OF this] obtain p' where
      p: "p = (pre @ [c]) @ p'" and m: "matchOf opn cl cs (p', g1, g2, rest)"
      and mn: "\<forall>m. matchOf opn cl cs m \<longrightarrow> earlier (p', g1, g2, rest) m"
      by blast
    have m1: "matchOf opn cl (c # cs) (c # p', g1, g2, rest)"
      using m by (simp add: matchOf_def)
    have "earlier (c # p', g1, g2, rest) m'" if "matchOf opn cl (c # cs) m'" for m'
    proof -
      obtain q h1 h2 r where m': "m' = (q, h1, h2, r)" by (cases m') auto
      have "q \<noteq> []"
      proof
        assume "q = []"
        with that m' have "matchOf opn cl (c # cs) ([], h1, h2, r)" by simp
        from lazyPairAt_complete [OF this, of "[]"] None show False by blast
      qed
      moreover from that m' have e: "c # cs = q @ h1 @ opn @ h2 @ cl @ r" and h: "h1 \<noteq> []" "h2 \<noteq> []"
        "list_all (\<lambda>c. \<not> isLineTerminator c) (h1 @ h2)"
        by (simp_all add: matchOf_def)
      ultimately obtain t where t: "q = c # t" and cs: "cs = t @ h1 @ opn @ h2 @ cl @ r"
        by (cases q) auto
      from cs h have "matchOf opn cl cs (t, h1, h2, r)" by (simp add: matchOf_def)
      with mn have "earlier (p', g1, g2, rest) (t, h1, h2, r)" by blast
      with t m' show ?thesis by (simp add: earlier_def)
    qed
    with p m1 show ?thesis by (intro exI [of _ "c # p'"]) simp
  qed
qed

lemma lazyPair_complete:
  "matchOf opn cl s (q, h1, h2, r) \<Longrightarrow> lazyPair opn cl pre s \<noteq> None"
proof (induction q arbitrary: pre s)
  case Nil
  from Nil obtain c cs where s: "s = c # cs" by (cases s) (auto simp: matchOf_def)
  from lazyPairAt_complete [OF Nil, of "[]"] obtain a where "lazyPairAt opn cl [] (c # cs) = Some a"
    unfolding s by blast
  then show ?case unfolding s by (simp del: lazyPairAt.simps split: prod.splits)
next
  case (Cons c t)
  then have s: "s = c # t @ h1 @ opn @ h2 @ cl @ r" and "matchOf opn cl (t @ h1 @ opn @ h2 @ cl @ r) (t, h1, h2, r)"
    by (simp_all add: matchOf_def)
  from Cons.IH [OF this(2), of "pre @ [c]"] s show ?case
    by (auto split: option.splits)
qed

lemma earlier_antisym:
  "matchOf opn cl s m \<Longrightarrow> matchOf opn cl s m' \<Longrightarrow> earlier m m' \<Longrightarrow> earlier m' m \<Longrightarrow> m = m'"
proof -
  assume a: "matchOf opn cl s m" and b: "matchOf opn cl s m'" and c: "earlier m m'" and d: "earlier m' m"
  obtain p g1 g2 r where m: "m = (p, g1, g2, r)" by (cases m) auto
  obtain p' g1' g2' r' where m': "m' = (p', g1', g2', r')" by (cases m') auto
  from c d m m' have l: "length p = length p'" "length g1 = length g1'" "length g2 = length g2'"
    by (auto simp: earlier_def)
  from a b m m' have e: "p @ g1 @ opn @ g2 @ cl @ r = p' @ g1' @ opn @ g2' @ cl @ r'"
    by (simp add: matchOf_def)
  from e l(1) have p: "p = p'" and e1: "g1 @ opn @ g2 @ cl @ r = g1' @ opn @ g2' @ cl @ r'" by simp_all
  from e1 l(2) have g1: "g1 = g1'" and e2: "g2 @ cl @ r = g2' @ cl @ r'" by simp_all
  from e2 l(3) have "g2 = g2'" and "r = r'" by simp_all
  with p g1 m m' show ?thesis by simp
qed

lemma lazyPair_iff:
  "lazyPair opn cl [] s = Some m \<longleftrightarrow>
     matchOf opn cl s m \<and> (\<forall>m'. matchOf opn cl s m' \<longrightarrow> earlier m m')"
proof
  assume a: "lazyPair opn cl [] s = Some m"
  obtain p g1 g2 rest where m: "m = (p, g1, g2, rest)" by (cases m) auto
  from lazyPair_Some [OF a [unfolded m]] m
  show "matchOf opn cl s m \<and> (\<forall>m'. matchOf opn cl s m' \<longrightarrow> earlier m m')" by auto
next
  assume a: "matchOf opn cl s m \<and> (\<forall>m'. matchOf opn cl s m' \<longrightarrow> earlier m m')"
  obtain p g1 g2 rest where m: "m = (p, g1, g2, rest)" by (cases m) auto
  from a m have "matchOf opn cl s (p, g1, g2, rest)" by simp
  from lazyPair_complete [OF this, of "[]"] obtain m0 where m0: "lazyPair opn cl [] s = Some m0"
    by blast
  obtain p0 g10 g20 rest0 where m0': "m0 = (p0, g10, g20, rest0)" by (cases m0) auto
  from lazyPair_Some [OF m0 [unfolded m0']] m0'
  have b: "matchOf opn cl s m0 \<and> (\<forall>m'. matchOf opn cl s m' \<longrightarrow> earlier m0 m')" by auto
  from a b have "earlier m m0" and "earlier m0 m" by blast+
  with a b have "m = m0" by (intro earlier_antisym [of opn cl s]) simp_all
  with m0 show "lazyPair opn cl [] s = Some m" by simp
qed

lemma lazyPair_None: "lazyPair opn cl [] s = None \<longleftrightarrow> (\<forall>m. \<not> matchOf opn cl s m)"
proof
  assume n: "lazyPair opn cl [] s = None"
  show "\<forall>m. \<not> matchOf opn cl s m"
  proof (intro allI notI)
    fix m assume a: "matchOf opn cl s m"
    obtain p g1 g2 rest where m: "m = (p, g1, g2, rest)" by (cases m) auto
    from lazyPair_complete [OF a [unfolded m], of "[]"] n show False by blast
  qed
next
  assume a: "\<forall>m. \<not> matchOf opn cl s m"
  show "lazyPair opn cl [] s = None"
  proof (cases "lazyPair opn cl [] s")
    case None
    then show ?thesis .
  next
    case (Some m)
    with lazyPair_iff a show ?thesis by blast
  qed
qed

lemma templateMatch_patternOf: "patternOf opn cl s (templateMatch opn cl s)"
proof (cases "lazyPair opn cl [] s")
  case None
  then have "templateMatch opn cl s = None" by (simp add: templateMatch_def)
  moreover from None lazyPair_None [of opn cl s] have "\<forall>m. \<not> matchOf opn cl s m" by blast
  ultimately show ?thesis by (simp add: patternOf_def)
next
  case (Some m)
  obtain p g1 g2 rest where m: "m = (p, g1, g2, rest)" by (cases m) auto
  from Some lazyPair_iff [of opn cl s m] have "firstMatch opn cl s m"
    unfolding firstMatch_def by blast
  with m have "\<exists>pre rest. firstMatch opn cl s (pre, g1, g2, rest)" by blast
  moreover from Some m have "templateMatch opn cl s = Some (g1, g2)" by (simp add: templateMatch_def)
  ultimately show ?thesis by (simp add: patternOf_def)
qed

lemma patternOf_unique: "patternOf opn cl s r \<Longrightarrow> patternOf opn cl s r' \<Longrightarrow> r = r'"
proof -
  assume a: "patternOf opn cl s r" and b: "patternOf opn cl s r'"
  have *: "x = y" if "firstMatch opn cl s x" and "firstMatch opn cl s y" for x y
  proof -
    from that have "matchOf opn cl s x" and "matchOf opn cl s y" and "earlier x y" and "earlier y x"
      unfolding firstMatch_def by blast+
    then show ?thesis by (rule earlier_antisym)
  qed
  show ?thesis
  proof (cases r)
    case None
    with a b show ?thesis by (cases r') (auto simp: patternOf_def firstMatch_def)
  next
    case (Some g)
    show ?thesis
    proof (cases r')
      case None
      with a b Some show ?thesis by (auto simp: patternOf_def firstMatch_def)
    next
      case (Some g')
      with a b \<open>r = Some g\<close> show ?thesis
        by (cases g; cases g') (auto simp: patternOf_def dest: *)
    qed
  qed
qed

lemma patternOf_iff: "patternOf opn cl s r = (r = templateMatch opn cl s)"
  using templateMatch_patternOf patternOf_unique by blast

lemma templateMatch_present:
  "(templateMatch opn cl s \<noteq> None) = (\<exists>m. matchOf opn cl s m)"
proof -
  have a: "(templateMatch opn cl s = None) = (lazyPair opn cl [] s = None)"
    by (auto simp: templateMatch_def split: option.splits)
  show ?thesis unfolding a lazyPair_None by blast
qed

subsection \<open>The type of a header object\<close>

lemma putColumn_map_inert:
  "(\<forall>n re. htype h' \<noteq> Split n re) \<Longrightarrow>
   putColumn E cell (h'\<lparr>hmap := m\<rparr>) destObj = putColumn E cell h' destObj"
  by (cases "htype h'") (simp_all add: putColumn_def)

lemma putColumn_inertMap: "putColumn E cell (inertMap h) destObj = putColumn E cell h destObj"
  by (cases "htype h") (simp_all add: inertMap_def putColumn_map_inert)

lemma putDataInObject_inertMap:
  "putDataInObject E cells (map (map_option inertMap) hs) destObj = putDataInObject E cells hs destObj"
  by (induction E cells hs destObj rule: putDataInObject.induct)
     (simp_all add: putColumn_inertMap split: sum.splits)

lemma processHeader_Inl:
  "processHeader E tpl = Inl err \<Longrightarrow>
   err = SyntaxError \<and>
   (\<exists>n p. (mapDataRegex tpl = Some (n, p) \<or> transformDataRegex tpl = Some (n, p)
            \<or> multiDataRegex tpl = Some (n, p) \<or> splitDataRegex tpl = Some (n, p))
          \<and> \<not> re_valid E p)"
  by (auto simp: processHeader_def RegExp_new_def split: option.splits sum.splits if_splits) blast+

lemma processHeader_Inr:
  "processHeader E tpl = Inr h \<Longrightarrow>
   (case htype h of
      Transform n re \<Rightarrow> transformDataRegex tpl = Some (n, source re)
    | Multi ns re \<Rightarrow>
        transformDataRegex tpl = None
        \<and> (\<exists>hs. multiDataRegex tpl = Some (hs, source re)
                 \<and> ns = splitCommas [] (templateCut ''[['' '']]'' hs))
    | Split n re \<Rightarrow>
        transformDataRegex tpl = None \<and> multiDataRegex tpl = None
        \<and> splitDataRegex tpl = Some (n, source re)
    | Norm n \<Rightarrow>
        transformDataRegex tpl = None \<and> multiDataRegex tpl = None
        \<and> splitDataRegex tpl = None \<and> n = tpl)
   \<and> hmap h = map_option (\<lambda>np. RegExp (snd np)) (mapDataRegex tpl)"
  by (auto simp: processHeader_def RegExp_new_def split: option.splits sum.splits if_splits)

lemmas eval_tpl = processHeader_def RegExp_new_def sampleEngine_def kvPattern_def kvExec_def
  templateMatch_def templateCut_def transformDataRegex_def multiDataRegex_def splitDataRegex_def
  mapDataRegex_def startsWith_def isLineTerminator_def

lemmas eval_put = putColumn_def obj_put_def obj_set_def obj_get_def arrayIndex_def digitVal_def
  group_def prop_assign_def propertyKey_def partVal_def protoNames_def

text \<open>
  C6. Each of the four template patterns gives exactly what its regular expression
  means: nothing when the template has no match of it, else the two groups of the first
  match. For every template that is not \<^verbatim>\<open>null\<close>, \<^verbatim>\<open>processHeaders\<close> either throws the
  syntax error of a pattern the engine refuses, or builds a header object of exactly one
  type, found in the order transform, multi, split, norm: a later type is given only to a
  template that no earlier pattern matches. The map pattern is looked for on its own: the
  header object has one exactly when the template has a match of the map pattern,
  whatever its type, and it is group 2 of the first match. \<^verbatim>\<open>putDataInObject\<close> reads it
  only in the split case: taking the map pattern away from every header object of another
  type changes nothing of what it returns.
\<close>

theorem processHeader_resolution:
  "(\<forall>r. patternOf ''//'' [CHR 0x5C, CHR 0x5C] tpl r = (r = transformDataRegex tpl))
   \<and> (\<forall>r. patternOf ''[['' '']]'' tpl r = (r = multiDataRegex tpl))
   \<and> (\<forall>r. patternOf ''{{'' ''}}'' tpl r = (r = splitDataRegex tpl))
   \<and> (\<forall>r. patternOf ''<<'' ''>>'' tpl r = (r = mapDataRegex tpl))
   \<and> (case processHeader E tpl of
      Inl err \<Rightarrow>
        err = SyntaxError \<and>
        (\<exists>n p. (mapDataRegex tpl = Some (n, p) \<or> transformDataRegex tpl = Some (n, p)
                 \<or> multiDataRegex tpl = Some (n, p) \<or> splitDataRegex tpl = Some (n, p))
               \<and> \<not> re_valid E p)
    | Inr h \<Rightarrow>
        (case htype h of
           Transform n re \<Rightarrow> transformDataRegex tpl = Some (n, source re)
         | Multi ns re \<Rightarrow>
             transformDataRegex tpl = None
             \<and> (\<exists>hs. multiDataRegex tpl = Some (hs, source re)
                      \<and> ns = splitCommas [] (templateCut ''[['' '']]'' hs))
         | Split n re \<Rightarrow>
             transformDataRegex tpl = None \<and> multiDataRegex tpl = None
             \<and> splitDataRegex tpl = Some (n, source re)
         | Norm n \<Rightarrow>
             transformDataRegex tpl = None \<and> multiDataRegex tpl = None
             \<and> splitDataRegex tpl = None \<and> n = tpl)
        \<and> hmap h = map_option (\<lambda>np. RegExp (snd np)) (mapDataRegex tpl)
        \<and> (hmap h \<noteq> None) = (\<exists>m. matchOf ''<<'' ''>>'' tpl m))
   \<and> (\<forall>cells hs destObj.
         putDataInObject E cells (map (map_option inertMap) hs) destObj
           = putDataInObject E cells hs destObj)"
proof (intro conjI allI)
  fix r
  show "patternOf ''//'' [CHR 0x5C, CHR 0x5C] tpl r = (r = transformDataRegex tpl)"
    unfolding transformDataRegex_def by (rule patternOf_iff)
  show "patternOf ''[['' '']]'' tpl r = (r = multiDataRegex tpl)"
    unfolding multiDataRegex_def by (rule patternOf_iff)
  show "patternOf ''{{'' ''}}'' tpl r = (r = splitDataRegex tpl)"
    unfolding splitDataRegex_def by (rule patternOf_iff)
  show "patternOf ''<<'' ''>>'' tpl r = (r = mapDataRegex tpl)"
    unfolding mapDataRegex_def by (rule patternOf_iff)
next
  show "case processHeader E tpl of
      Inl err \<Rightarrow>
        err = SyntaxError \<and>
        (\<exists>n p. (mapDataRegex tpl = Some (n, p) \<or> transformDataRegex tpl = Some (n, p)
                 \<or> multiDataRegex tpl = Some (n, p) \<or> splitDataRegex tpl = Some (n, p))
               \<and> \<not> re_valid E p)
    | Inr h \<Rightarrow>
        (case htype h of
           Transform n re \<Rightarrow> transformDataRegex tpl = Some (n, source re)
         | Multi ns re \<Rightarrow>
             transformDataRegex tpl = None
             \<and> (\<exists>hs. multiDataRegex tpl = Some (hs, source re)
                      \<and> ns = splitCommas [] (templateCut ''[['' '']]'' hs))
         | Split n re \<Rightarrow>
             transformDataRegex tpl = None \<and> multiDataRegex tpl = None
             \<and> splitDataRegex tpl = Some (n, source re)
         | Norm n \<Rightarrow>
             transformDataRegex tpl = None \<and> multiDataRegex tpl = None
             \<and> splitDataRegex tpl = None \<and> n = tpl)
        \<and> hmap h = map_option (\<lambda>np. RegExp (snd np)) (mapDataRegex tpl)
        \<and> (hmap h \<noteq> None) = (\<exists>m. matchOf ''<<'' ''>>'' tpl m)"
  proof (cases "processHeader E tpl")
    case (Inl err)
    with processHeader_Inl [OF Inl] show ?thesis by simp
  next
    case (Inr h)
    from processHeader_Inr [OF Inr] have
      m: "hmap h = map_option (\<lambda>np. RegExp (snd np)) (mapDataRegex tpl)" by simp
    then have "(hmap h \<noteq> None) = (mapDataRegex tpl \<noteq> None)" by simp
    also have "\<dots> = (\<exists>m. matchOf ''<<'' ''>>'' tpl m)"
      unfolding mapDataRegex_def by (rule templateMatch_present)
    finally show ?thesis using processHeader_Inr [OF Inr] Inr by simp
  qed
next
  fix cells hs destObj
  show "putDataInObject E cells (map (map_option inertMap) hs) destObj
          = putDataInObject E cells hs destObj"
    by (rule putDataInObject_inertMap)
qed

theorem processHeader_resolution_witness:
  "processHeader sampleEngine ''m{{,}}<<^(.)=(.)$>>''
     = Inr \<lparr>htype = Split ''m'' (RegExp '',''), hmap = Some (RegExp ''^(.)=(.)$'')\<rparr>
   \<and> transformDataRegex ''m{{,}}<<^(.)=(.)$>>'' = None
   \<and> multiDataRegex ''m{{,}}<<^(.)=(.)$>>'' = None
   \<and> splitDataRegex ''m{{,}}<<^(.)=(.)$>>'' = Some (''m'', '','')
   \<and> mapDataRegex ''m{{,}}<<^(.)=(.)$>>'' = Some (''m{{,}}'', ''^(.)=(.)$'')
   \<and> patternOf ''<<'' ''>>'' ''m{{,}}<<^(.)=(.)$>>'' (Some (''m{{,}}'', ''^(.)=(.)$''))
   \<and> matchOf ''<<'' ''>>'' ''m{{,}}<<^(.)=(.)$>>'' ([], ''m{{,}}'', ''^(.)=(.)$'', [])
   \<and> putDataInObject sampleEngine [VStr ''a=1,b=2'']
        [Some \<lparr>htype = Split ''m'' (RegExp '',''), hmap = Some (RegExp ''^(.)=(.)$'')\<rparr>] []
       = Inr [(''m'', VObj [(''a'', VStr ''1''), (''b'', VStr ''2'')])]
   \<and> putDataInObject sampleEngine [VStr ''a=1,b=2'']
        [Some \<lparr>htype = Split ''m'' (RegExp '',''), hmap = None\<rparr>] []
       = Inr [(''m'', VArr [VStr ''a=1'', VStr ''b=2''])]
   \<and> processHeader sampleEngine (''m{{,}}//^(.)=(.)$'' @ [CHR 0x5C, CHR 0x5C])
       = Inr \<lparr>htype = Transform ''m{{,}}'' (RegExp ''^(.)=(.)$''), hmap = None\<rparr>
   \<and> transformDataRegex (''m{{,}}//^(.)=(.)$'' @ [CHR 0x5C, CHR 0x5C])
       = Some (''m{{,}}'', ''^(.)=(.)$'')
   \<and> splitDataRegex (''m{{,}}//^(.)=(.)$'' @ [CHR 0x5C, CHR 0x5C]) = Some (''m'', '','')
   \<and> processHeader sampleEngine ''n<<^(.)=(.)$>>''
       = Inr \<lparr>htype = Norm ''n<<^(.)=(.)$>>'', hmap = Some (RegExp ''^(.)=(.)$'')\<rparr>
   \<and> putDataInObject sampleEngine [VStr ''a=b'']
        [Some \<lparr>htype = Norm ''n<<^(.)=(.)$>>'', hmap = Some (RegExp ''^(.)=(.)$'')\<rparr>] []
       = Inr [(''n<<^(.)=(.)$>>'', VStr ''a=b'')]"
proof -
  let ?t1 = "''m{{,}}<<^(.)=(.)$>>''"
  let ?h1 = "\<lparr>htype = Split ''m'' (RegExp '',''), hmap = Some (RegExp ''^(.)=(.)$'')\<rparr>"
  let ?t2 = "''m{{,}}//^(.)=(.)$'' @ [CHR 0x5C, CHR 0x5C]"
  let ?h2 = "\<lparr>htype = Transform ''m{{,}}'' (RegExp ''^(.)=(.)$''), hmap = None\<rparr>"
  let ?t3 = "''n<<^(.)=(.)$>>''"
  let ?h3 = "\<lparr>htype = Norm ''n<<^(.)=(.)$>>'', hmap = Some (RegExp ''^(.)=(.)$'')\<rparr>"
  note t1 = processHeader_resolution [where E = sampleEngine and tpl = ?t1]
  note t2 = processHeader_resolution [where E = sampleEngine and tpl = ?t2]
  have p1: "processHeader sampleEngine ?t1 = Inr ?h1" by (simp add: eval_tpl)
  have p2: "processHeader sampleEngine ?t2 = Inr ?h2" by (simp add: eval_tpl)
  have p3: "processHeader sampleEngine ?t3 = Inr ?h3" by (simp add: eval_tpl)
  note c1 = t1 [THEN conjunct2, THEN conjunct2, THEN conjunct2, THEN conjunct2, THEN conjunct1,
                unfolded p1]
  from c1 have ty: "transformDataRegex ?t1 = None" "multiDataRegex ?t1 = None"
    "splitDataRegex ?t1 = Some (''m'', '','')" by simp_all
  have mp: "mapDataRegex ?t1 = Some (''m{{,}}'', ''^(.)=(.)$'')" by (simp add: eval_tpl)
  from t1 [THEN conjunct2, THEN conjunct2, THEN conjunct2, THEN conjunct1] mp
  have pat: "patternOf ''<<'' ''>>'' ?t1 (Some (''m{{,}}'', ''^(.)=(.)$''))" by simp
  have mo: "matchOf ''<<'' ''>>'' ?t1 ([], ''m{{,}}'', ''^(.)=(.)$'', [])"
    by (simp add: matchOf_def isLineTerminator_def)
  have withMap: "putDataInObject sampleEngine [VStr ''a=1,b=2''] [Some ?h1] []
       = Inr [(''m'', VObj [(''a'', VStr ''1''), (''b'', VStr ''2'')])]"
    by (simp add: eval_put eval_tpl)
  have without: "putDataInObject sampleEngine [VStr ''a=1,b=2'']
        [Some \<lparr>htype = Split ''m'' (RegExp '',''), hmap = None\<rparr>] []
       = Inr [(''m'', VArr [VStr ''a=1'', VStr ''b=2''])]"
    by (simp add: eval_put eval_tpl)
  note c2 = t2 [THEN conjunct2, THEN conjunct2, THEN conjunct2, THEN conjunct2, THEN conjunct1,
                unfolded p2]
  from c2 have tr: "transformDataRegex ?t2 = Some (''m{{,}}'', ''^(.)=(.)$'')" by simp
  have sp: "splitDataRegex ?t2 = Some (''m'', '','')" by (simp add: eval_tpl)
  have "putDataInObject sampleEngine [VStr ''a=b''] (map (map_option inertMap) [Some ?h3]) []
       = putDataInObject sampleEngine [VStr ''a=b''] [Some ?h3] []"
    using t1 by blast
  then have inert: "putDataInObject sampleEngine [VStr ''a=b''] [Some ?h3] []
       = Inr [(''n<<^(.)=(.)$>>'', VStr ''a=b'')]"
    by (simp add: inertMap_def eval_put)
  from p1 ty mp pat mo withMap without p2 tr sp p3 inert show ?thesis by simp
qed

subsection \<open>Transform\<close>

text \<open>
  C2. Let a template match the transform pattern with name \<open>name\<close> and pattern \<open>pat\<close>, and
  let \<^verbatim>\<open>processHeaders\<close> build the header object \<open>h\<close> from it. Then \<open>h\<close> has the type
  transform. A string cell that matches \<open>pat\<close> puts capture group 1 of the match in the
  field \<open>name\<close> of the record (for every name but \<^verbatim>\<open>__proto__\<close>, which JavaScript does
  not store as a property). A string cell that does not match ends the process: the
  column gives \<open>ProcessExit\<close>, and a batch of rows that holds such a cell returns no
  record at all, neither for the rows before, nor for this row, nor for the rows after;
  what ends it is \<open>ProcessExit\<close> whenever the rows before and the cells before went
  through.
\<close>

theorem transform_extracts_or_exits:
  assumes "processHeader E tpl = Inr h" and "transformDataRegex tpl = Some (name, pat)"
  shows "htype h = Transform name (RegExp pat) \<and>
         (\<forall>s m destObj. re_exec E pat s = Some m \<longrightarrow>
            (\<exists>destObj'. putDataInObject E [VStr s] [Some h] destObj = Inr destObj' \<and>
               (name \<noteq> ''__proto__'' \<longrightarrow> obj_get destObj' name = group m 1))) \<and>
         (\<forall>s destObj. re_exec E pat s = None \<longrightarrow>
            putDataInObject E [VStr s] [Some h] destObj = Inl ProcessExit) \<and>
         (\<forall>s c1 c2 h1 h2 before after. re_exec E pat s = None \<and> length c1 = length h1 \<longrightarrow>
            (\<exists>err. rowsToArrayOfObj E (before @ (c1 @ VStr s # c2) # after) (h1 @ Some h # h2)
                      = Inl err \<and>
               ((\<exists>objs. rowsToArrayOfObj E before (h1 @ Some h # h2) = Inr objs) \<and>
                (\<exists>d. putDataInObject E c1 h1 [] = Inr d) \<longrightarrow> err = ProcessExit)))"
proof -
  have ht: "htype h = Transform name (RegExp pat)"
    using assms by (rule processHeader_transform)
  have ok: "putColumn E (VStr s) h destObj = Inr (assignPair destObj (name, group m 1))"
    if "re_exec E pat s = Some m" for s m destObj
    using that ht by (simp add: putColumn_def obj_put_primitive group_primitive)
  have ex: "putColumn E (VStr s) h destObj = Inl ProcessExit"
    if "re_exec E pat s = None" for s destObj
    using that ht by (simp add: putColumn_def)
  have batch: "\<exists>err. rowsToArrayOfObj E (before @ (c1 @ VStr s # c2) # after) (h1 @ Some h # h2)
                      = Inl err \<and>
               ((\<exists>objs. rowsToArrayOfObj E before (h1 @ Some h # h2) = Inr objs) \<and>
                (\<exists>d. putDataInObject E c1 h1 [] = Inr d) \<longrightarrow> err = ProcessExit)"
    if no: "re_exec E pat s = None" and len: "length c1 = length h1"
    for s c1 c2 h1 h2 before after
  proof -
    let ?hs = "h1 @ Some h # h2" and ?row = "c1 @ VStr s # c2"
    have row: "rowToObj E ?row ?hs =
        (case putDataInObject E c1 h1 [] of Inl err \<Rightarrow> Inl err | Inr d \<Rightarrow> Inl ProcessExit)"
      unfolding rowToObj_def putDataInObject_split [OF len]
      by (simp add: ex [OF no] split: sum.splits)
    then obtain e where e: "rowToObj E ?row ?hs = Inl e"
      by (cases "putDataInObject E c1 h1 []") auto
    from rows_fail_any [OF e] obtain err where
      err: "rowsToArrayOfObj E (before @ ?row # after) ?hs = Inl err" by blast
    have "err = ProcessExit"
      if "\<exists>objs. rowsToArrayOfObj E before ?hs = Inr objs" and "\<exists>d. putDataInObject E c1 h1 [] = Inr d"
    proof -
      from that(2) row have "rowToObj E ?row ?hs = Inl ProcessExit" by auto
      with that(1) rows_fail_first have "rowsToArrayOfObj E (before @ ?row # after) ?hs = Inl ProcessExit"
        by blast
      with err show ?thesis by simp
    qed
    with err show ?thesis by blast
  qed
  show ?thesis
    unfolding putDataInObject_single
    using ht ok ex batch by (simp add: obj_get_assignPair)
qed

theorem transform_extracts_or_exits_witness:
  "processHeader sampleEngine (''t//^(.)=(.)$'' @ [CHR 0x5C, CHR 0x5C])
     = Inr \<lparr>htype = Transform ''t'' (RegExp ''^(.)=(.)$''), hmap = None\<rparr>
   \<and> transformDataRegex (''t//^(.)=(.)$'' @ [CHR 0x5C, CHR 0x5C]) = Some (''t'', ''^(.)=(.)$'')
   \<and> re_exec sampleEngine ''^(.)=(.)$'' ''a=b'' = Some [Some ''a=b'', Some ''a'', Some ''b'']
   \<and> putDataInObject sampleEngine [VStr ''a=b'']
        [Some \<lparr>htype = Transform ''t'' (RegExp ''^(.)=(.)$''), hmap = None\<rparr>] []
       = Inr [(''t'', VStr ''a'')]
   \<and> re_exec sampleEngine ''^(.)=(.)$'' ''zz'' = None
   \<and> rowsToArrayOfObj sampleEngine [[VStr ''a=b''], [VStr ''zz''], [VStr ''c=d'']]
        [Some \<lparr>htype = Transform ''t'' (RegExp ''^(.)=(.)$''), hmap = None\<rparr>]
       = Inl ProcessExit"
proof -
  let ?tpl = "''t//^(.)=(.)$'' @ [CHR 0x5C, CHR 0x5C]"
  let ?h = "\<lparr>htype = Transform ''t'' (RegExp ''^(.)=(.)$''), hmap = None\<rparr>"
  have p: "processHeader sampleEngine ?tpl = Inr ?h"
    by (simp add: eval_tpl)
  have m: "transformDataRegex ?tpl = Some (''t'', ''^(.)=(.)$'')"
    by (simp add: eval_tpl)
  have yes: "re_exec sampleEngine ''^(.)=(.)$'' ''a=b'' = Some [Some ''a=b'', Some ''a'', Some ''b'']"
    by (simp add: eval_tpl)
  have no: "re_exec sampleEngine ''^(.)=(.)$'' ''zz'' = None"
    by (simp add: eval_tpl)
  note t = transform_extracts_or_exits [OF p m]
  have col: "putDataInObject sampleEngine [VStr ''a=b''] [Some ?h] [] = Inr [(''t'', VStr ''a'')]"
    using yes by (simp add: eval_put)
  have before: "\<exists>objs. rowsToArrayOfObj sampleEngine [[VStr ''a=b'']] ([] @ Some ?h # []) = Inr objs"
    using col by (simp add: rowToObj_def)
  from t no have
    "\<exists>err. rowsToArrayOfObj sampleEngine ([[VStr ''a=b'']] @ ([] @ VStr ''zz'' # []) # [[VStr ''c=d'']])
               ([] @ Some ?h # []) = Inl err \<and>
       ((\<exists>objs. rowsToArrayOfObj sampleEngine [[VStr ''a=b'']] ([] @ Some ?h # []) = Inr objs) \<and>
        (\<exists>d. putDataInObject sampleEngine [] [] [] = Inr d) \<longrightarrow> err = ProcessExit)"
    by (metis length_0_conv)
  with before have
    "rowsToArrayOfObj sampleEngine ([[VStr ''a=b'']] @ ([] @ VStr ''zz'' # []) # [[VStr ''c=d'']])
               ([] @ Some ?h # []) = Inl ProcessExit"
    by auto
  with p m yes no col show ?thesis by simp
qed

subsection \<open>Multi\<close>







subsection \<open>Split with a map pattern\<close>

text \<open>
  C4. Let a header object have the type split, with name \<open>name\<close>, and a map pattern; let
  the cell be a string, its parts after the split all strings, the name none of those
  every object inherits, and the field \<open>name\<close> of the record not yet set. When every part
  matches the map pattern, the field becomes the object that maps capture group 1 of
  each part to its capture group 2 (a later part overwriting an earlier one with the
  same key). When some part does not match, the field becomes the array of the parts as
  they were split: nothing of the mapping built so far is kept.
\<close>

theorem split_map_all_or_nothing:
  assumes "htype h = Split name delim" and "hmap h = Some mre"
    and "parts = re_split E (source delim) s" and "list_all (\<lambda>p. p \<noteq> None) parts"
    and "name \<notin> set protoNames" and "\<not> truthy (obj_get destObj name)"
  shows "\<exists>destObj'. putDataInObject E [VStr s] [Some h] destObj = Inr destObj' \<and>
           obj_get destObj' name =
             (if list_all (\<lambda>p. fragmentPair E mre p \<noteq> None) parts
              then VObj (mappingOf (map (the \<circ> fragmentPair E mre) parts))
              else VArr (map partVal parts)) \<and>
           (\<forall>key. key \<noteq> ''__proto__'' \<longrightarrow>
              obj_get (mappingOf (map (the \<circ> fragmentPair E mre) parts)) key =
              (case map_of (rev (map (the \<circ> fragmentPair E mre) parts)) key of
                 Some v \<Rightarrow> v | None \<Rightarrow> VUndef))"
proof -
  let ?pairs = "map (the \<circ> fragmentPair E mre) parts"
  have np: "name \<noteq> ''__proto__''" using assms(5) by (auto simp: protoNames_def)
  have lk: "\<forall>key. key \<noteq> ''__proto__'' \<longrightarrow> obj_get (mappingOf ?pairs) key =
              (case map_of (rev ?pairs) key of Some v \<Rightarrow> v | None \<Rightarrow> VUndef)"
    by (simp add: obj_get_def mappingOf_def map_of_foldl_assignPair)
  show ?thesis
  proof (cases "list_all (\<lambda>p. fragmentPair E mre p \<noteq> None) parts")
    case True
    have mp: "mapParts E mre (VArr (map partVal parts)) parts (VObj []) = Inr (VObj (mappingOf ?pairs))"
      using mapParts_all [OF True] by (simp add: mappingOf_def)
    have "putColumn E (VStr s) h destObj = Inr (obj_set destObj name (VObj (mappingOf ?pairs)))"
      using assms(1,2,5,6) assms(3) [symmetric] mp np by (simp add: putColumn_def Let_def obj_put_plain)
    with True lk show ?thesis
      unfolding putDataInObject_single by (simp add: obj_get_obj_set)
  next
    case False
    have mp: "mapParts E mre (VArr (map partVal parts)) parts (VObj []) = Inr (VArr (map partVal parts))"
      using mapParts_some_fail [OF assms(4) False] by simp
    have "putColumn E (VStr s) h destObj = Inr (obj_set destObj name (VArr (map partVal parts)))"
      using assms(1,2,5,6) assms(3) [symmetric] mp np by (simp add: putColumn_def Let_def obj_put_plain)
    with False lk show ?thesis
      unfolding putDataInObject_single by (simp add: obj_get_obj_set)
  qed
qed

theorem split_map_all_or_nothing_witness:
  "putDataInObject sampleEngine [VStr ''a=1,b=2'']
      [Some \<lparr>htype = Split ''m'' (RegExp '',''), hmap = Some (RegExp ''^(.)=(.)$'')\<rparr>] []
     = Inr [(''m'', VObj [(''a'', VStr ''1''), (''b'', VStr ''2'')])]
   \<and> putDataInObject sampleEngine [VStr ''a=1,b2'']
      [Some \<lparr>htype = Split ''m'' (RegExp '',''), hmap = Some (RegExp ''^(.)=(.)$'')\<rparr>] []
     = Inr [(''m'', VArr [VStr ''a=1'', VStr ''b2''])]"
proof -
  let ?h = "\<lparr>htype = Split ''m'' (RegExp '',''), hmap = Some (RegExp ''^(.)=(.)$'')\<rparr>"
  have ty: "htype ?h = Split ''m'' (RegExp '','')" and mp: "hmap ?h = Some (RegExp ''^(.)=(.)$'')"
    by simp_all
  have plain: "''m'' \<notin> set protoNames" by (simp add: protoNames_def)
  have fresh: "\<not> truthy (obj_get [] ''m'')" by (simp add: obj_get_def)
  have s1: "[Some ''a=1'', Some ''b=2''] = re_split sampleEngine (source (RegExp '','')) ''a=1,b=2''"
    by (simp add: sampleEngine_def)
  have s2: "[Some ''a=1'', Some ''b2''] = re_split sampleEngine (source (RegExp '','')) ''a=1,b2''"
    by (simp add: sampleEngine_def)
  have n1: "list_all (\<lambda>p. p \<noteq> None) [Some ''a=1'', Some ''b=2'']" by simp
  have n2: "list_all (\<lambda>p. p \<noteq> None) [Some ''a=1'', Some ''b2'']" by simp
  from split_map_all_or_nothing [OF ty mp s1 n1 plain fresh] obtain d1 where
    "putDataInObject sampleEngine [VStr ''a=1,b=2''] [Some ?h] [] = Inr d1" by blast
  moreover from split_map_all_or_nothing [OF ty mp s2 n2 plain fresh] obtain d2 where
    "putDataInObject sampleEngine [VStr ''a=1,b2''] [Some ?h] [] = Inr d2" by blast
  moreover have "putDataInObject sampleEngine [VStr ''a=1,b=2''] [Some ?h] []
       = Inr [(''m'', VObj [(''a'', VStr ''1''), (''b'', VStr ''2'')])]"
    by (simp add: eval_put eval_tpl)
  moreover have "putDataInObject sampleEngine [VStr ''a=1,b2''] [Some ?h] []
       = Inr [(''m'', VArr [VStr ''a=1'', VStr ''b2''])]"
    by (simp add: eval_put eval_tpl)
  ultimately show ?thesis by simp
qed

section \<open>Further properties\<close>

subsection \<open>An entry without array cells\<close>

lemma longestOf_scalars: "list_all (\<lambda>c. \<not> isArray c) cells \<Longrightarrow> longestOf n cells = n"
proof (induction cells arbitrary: n)
  case Nil
  then show ?case by simp
next
  case (Cons c cells)
  then show ?case by (cases c) simp_all
qed

lemma fillCols_scalars:
  "list_all (\<lambda>c. \<not> isArray c) cells \<Longrightarrow> col + length cells \<le> length row \<Longrightarrow>
   fillCols [row] col cells = Inr [take col row @ cells @ drop (col + length cells) row]"
proof (induction cells arbitrary: row col)
  case Nil
  then show ?case by simp
next
  case (Cons c cells)
  have na: "\<not> isArray c" and rest: "list_all (\<lambda>c. \<not> isArray c) cells"
    using Cons.prems(1) by simp_all
  have col: "col < length row" using Cons.prems(2) by simp
  then have set: "js_set row col c = row[col := c]" by (simp add: js_set_def)
  have "fillCols [row] col (c # cells) = fillCols [row[col := c]] (Suc col) cells"
    using fillCols_scalar [OF na, of row "[]" col cells] set by simp
  also have "\<dots> = Inr [take (Suc col) (row[col := c]) @ cells
                         @ drop (Suc col + length cells) (row[col := c])]"
    using rest Cons.prems(2) by (intro Cons.IH) simp_all
  also have "take (Suc col) (row[col := c]) = take col row @ [c]"
    using col by (simp add: take_Suc_conv_app_nth)
  also have "drop (Suc col + length cells) (row[col := c]) = drop (Suc col + length cells) row"
    by simp
  finally show ?case by simp
qed

text \<open>
  An entry whose cells are as many as its headers and none of them an array gives
  exactly one row: its cells, in the order of the headers.
\<close>

theorem getOutputRows_scalars:
  assumes "length (data e) = length (headers e)" and "list_all (\<lambda>c. \<not> isArray c) (data e)"
  shows "getOutputRows e = Inr [data e]"
proof -
  have "fillCols [replicate (length (headers e)) (VStr [])] 0 (data e)
        = Inr [take 0 (replicate (length (headers e)) (VStr [])) @ data e
               @ drop (0 + length (data e)) (replicate (length (headers e)) (VStr []))]"
    using assms by (intro fillCols_scalars) simp_all
  then show ?thesis
    using assms by (simp add: getOutputRows_def longestOf_scalars)
qed

theorem getOutputRows_scalars_witness:
  "getOutputRows \<lparr>headers = [''a'', ''b''], data = [VStr ''x'', VNum 0], data_m1 = VUndef\<rparr>
     = Inr [[VStr ''x'', VNum 0]]"
  using getOutputRows_scalars
          [of "\<lparr>headers = [''a'', ''b''], data = [VStr ''x'', VNum 0], data_m1 = VUndef\<rparr>"]
  by simp

subsection \<open>Lines of the wrong length\<close>

text \<open>
  \<^verbatim>\<open>addLine\<close> with an array that is not as long as the headers throws, naming both
  lengths, and pushes nothing.
\<close>

theorem addLine_wrong_length:
  assumes "length xs \<noteq> length (csv_headers doc)"
  shows "addLine doc (VArr xs) = (Some (InputLength (length xs) (length (csv_headers doc))), doc)"
  using assms by (simp add: addLine_def CSVEntry_new_def)

theorem addLine_wrong_length_witness:
  "addLine (CSV_new [''a'', ''b'']) (VArr [VStr ''x''])
     = (Some (InputLength 1 2), CSV_new [''a'', ''b''])"
  using addLine_wrong_length [of "[VStr ''x'']" "CSV_new [''a'', ''b'']"]
  by (simp add: CSV_new_def)

subsection \<open>An object that is accepted\<close>

lemma array_indexOf_Some:
  "h \<in> set hs \<Longrightarrow> \<exists>j. array_indexOf hs h = Some j \<and> j < length hs \<and> hs ! j = h"
proof (induction hs)
  case Nil
  then show ?case by simp
next
  case (Cons x hs)
  then show ?case by (cases "x = h") auto
qed

lemma length_js_set: "length (js_set xs i v) = max (length xs) (Suc i)"
  by (auto simp: js_set_def)

lemma addKeys_fills:
  assumes "distinct hs"
  shows "distinct (map fst kvs) \<Longrightarrow> fst ` set kvs \<subseteq> set hs \<Longrightarrow>
   list_all (\<lambda>kv. \<not> (typeofObject (snd kv) \<and> \<not> isArray (snd kv))) kvs \<Longrightarrow>
   headers row = hs \<Longrightarrow> length (data row) \<le> length hs \<Longrightarrow>
   (\<forall>j<length hs. hs ! j \<in> fst ` set kvs \<longrightarrow> js_get (data row) j = VUndef) \<Longrightarrow>
   \<exists>row'. addKeys hs row kvs = Inr row' \<and> headers row' = hs \<and> data_m1 row' = data_m1 row \<and>
     length (data row') \<le> length hs \<and>
     (\<forall>j<length hs. hs ! j \<in> fst ` set kvs \<longrightarrow> j < length (data row')) \<and>
     (\<forall>j<length hs. js_get (data row') j =
        (case map_of kvs (hs ! j) of Some v \<Rightarrow> v | None \<Rightarrow> js_get (data row) j)) \<and>
     length (data row) \<le> length (data row')"
proof (induction kvs arbitrary: row)
  case Nil
  then show ?case by simp
next
  case (Cons kv kvs)
  obtain k v where kv: "kv = (k, v)" by (cases kv)
  have kin: "k \<in> set hs" and knew: "k \<notin> fst ` set kvs"
    using Cons.prems(1,2) kv by auto
  have okv: "\<not> (typeofObject v \<and> \<not> isArray v)" using Cons.prems(3) kv by simp
  from array_indexOf_Some [OF kin] obtain j where
    j: "array_indexOf hs k = Some j" "j < length hs" "hs ! j = k" by blast
  have old: "js_get (data row) j = VUndef"
    using Cons.prems(6) j kv by simp
  let ?row1 = "row\<lparr>data := js_set (data row) j v\<rparr>"
  have add1: "add row k v = Inr ?row1"
    using okv j(1) old Cons.prems(4)
    by (simp add: add_def indexOf_def data_at_def data_put_def Let_def)
  have uniq: "i = j" if "i < length hs" "hs ! i = k" for i
    using that j(2,3) assms nth_eq_iff_index_eq [of hs i j] by simp
  have "\<exists>row'. addKeys hs ?row1 kvs = Inr row' \<and> headers row' = hs \<and> data_m1 row' = data_m1 ?row1 \<and>
     length (data row') \<le> length hs \<and>
     (\<forall>i<length hs. hs ! i \<in> fst ` set kvs \<longrightarrow> i < length (data row')) \<and>
     (\<forall>i<length hs. js_get (data row') i =
        (case map_of kvs (hs ! i) of Some v \<Rightarrow> v | None \<Rightarrow> js_get (data ?row1) i)) \<and>
     length (data ?row1) \<le> length (data row')"
  proof (rule Cons.IH)
    show "distinct (map fst kvs)" using Cons.prems(1) by simp
    show "fst ` set kvs \<subseteq> set hs" using Cons.prems(2) by simp
    show "list_all (\<lambda>kv. \<not> (typeofObject (snd kv) \<and> \<not> isArray (snd kv))) kvs"
      using Cons.prems(3) by simp
    show "headers ?row1 = hs" using Cons.prems(4) by simp
    show "length (data ?row1) \<le> length hs"
      using Cons.prems(5) j(2) by (simp add: length_js_set)
    show "\<forall>i<length hs. hs ! i \<in> fst ` set kvs \<longrightarrow> js_get (data ?row1) i = VUndef"
    proof (intro allI impI)
      fix i assume i: "i < length hs" "hs ! i \<in> fst ` set kvs"
      then have "hs ! i \<noteq> k" using knew by auto
      then have "i \<noteq> j" using j(3) by auto
      moreover have "js_get (data row) i = VUndef" using Cons.prems(6) i by simp
      ultimately show "js_get (data ?row1) i = VUndef"
        by (auto simp: js_get_def js_set_def nth_append)
    qed
  qed
  then obtain row' where r: "addKeys hs ?row1 kvs = Inr row'" "headers row' = hs"
    "data_m1 row' = data_m1 ?row1" "length (data row') \<le> length hs"
    "\<forall>i<length hs. hs ! i \<in> fst ` set kvs \<longrightarrow> i < length (data row')"
    "\<forall>i<length hs. js_get (data row') i =
        (case map_of kvs (hs ! i) of Some v \<Rightarrow> v | None \<Rightarrow> js_get (data ?row1) i)"
    "length (data ?row1) \<le> length (data row')"
    by blast
  have res: "addKeys hs row (kv # kvs) = Inr row'"
    using r(1) add1 kin kv by simp
  have cover: "\<forall>i<length hs. hs ! i \<in> fst ` set (kv # kvs) \<longrightarrow> i < length (data row')"
  proof (intro allI impI)
    fix i assume i: "i < length hs" "hs ! i \<in> fst ` set (kv # kvs)"
    show "i < length (data row')"
    proof (cases "hs ! i = k")
      case True
      then have "i = j" using uniq i(1) by simp
      then show ?thesis using r(7) by (simp add: length_js_set)
    next
      case False
      then show ?thesis using i r(5) kv by auto
    qed
  qed
  have vals: "\<forall>i<length hs. js_get (data row') i =
        (case map_of (kv # kvs) (hs ! i) of Some v \<Rightarrow> v | None \<Rightarrow> js_get (data row) i)"
  proof (intro allI impI)
    fix i assume i: "i < length hs"
    show "js_get (data row') i =
        (case map_of (kv # kvs) (hs ! i) of Some v \<Rightarrow> v | None \<Rightarrow> js_get (data row) i)"
    proof (cases "hs ! i = k")
      case True
      then have ij: "i = j" using uniq i by simp
      have "map_of kvs k = None" using knew by (simp add: map_of_eq_None_iff)
      then have "js_get (data row') j = js_get (data ?row1) j" using r(6) j by simp
      also have "\<dots> = v" by (auto simp: js_get_def js_set_def nth_append)
      finally show ?thesis using True ij kv by simp
    next
      case False
      then have "i \<noteq> j" using j(3) by auto
      then have "js_get (data ?row1) i = js_get (data row) i"
        by (auto simp: js_get_def js_set_def nth_append)
      then show ?thesis using r(6) i False kv by (simp split: option.splits)
    qed
  qed
  have "length (data row) \<le> length (data row')"
    using r(7) by (simp add: length_js_set)
  with res r(2,3,4) cover vals show ?case by simp
qed

text \<open>
  When the headers of a document are distinct, the keys of an object are exactly the
  headers, and none of its values is an object other than an array, \<^verbatim>\<open>addObject\<close> does
  not throw and appends one entry, whose cell under each header is the value the object
  has for it, whatever the order of the keys.
\<close>

theorem addObject_appends_entry:
  assumes "distinct (csv_headers doc)" and "distinct (map fst kvs)"
    and "fst ` set kvs = set (csv_headers doc)"
    and "list_all (\<lambda>kv. \<not> (typeofObject (snd kv) \<and> \<not> isArray (snd kv))) kvs"
  shows "addObject doc (VObj kvs) =
           (None, doc\<lparr>entries := entries doc @
              [EntryObj \<lparr>headers = csv_headers doc,
                         data = map (\<lambda>h. the (map_of kvs h)) (csv_headers doc),
                         data_m1 = VUndef\<rparr>]\<rparr>)"
proof -
  let ?hs = "csv_headers doc"
  let ?row0 = "\<lparr>headers = ?hs, data = [], data_m1 = VUndef\<rparr>"
  have len: "length kvs = length ?hs"
  proof -
    have "length kvs = card (fst ` set kvs)"
      using assms(2) by (metis distinct_card length_map set_map)
    also have "\<dots> = length ?hs" using assms(1,3) by (simp add: distinct_card)
    finally show ?thesis .
  qed
  have "\<exists>row'. addKeys ?hs ?row0 kvs = Inr row' \<and> headers row' = ?hs \<and> data_m1 row' = data_m1 ?row0 \<and>
     length (data row') \<le> length ?hs \<and>
     (\<forall>j<length ?hs. ?hs ! j \<in> fst ` set kvs \<longrightarrow> j < length (data row')) \<and>
     (\<forall>j<length ?hs. js_get (data row') j =
        (case map_of kvs (?hs ! j) of Some v \<Rightarrow> v | None \<Rightarrow> js_get (data ?row0) j)) \<and>
     length (data ?row0) \<le> length (data row')"
    using assms by (intro addKeys_fills) (simp_all add: js_get_def)
  then obtain row' where r: "addKeys ?hs ?row0 kvs = Inr row'" "headers row' = ?hs"
    "data_m1 row' = VUndef" "length (data row') \<le> length ?hs"
    "\<forall>j<length ?hs. ?hs ! j \<in> fst ` set kvs \<longrightarrow> j < length (data row')"
    "\<forall>j<length ?hs. js_get (data row') j =
        (case map_of kvs (?hs ! j) of Some v \<Rightarrow> v | None \<Rightarrow> js_get (data ?row0) j)"
    by auto
  have full: "length (data row') = length ?hs"
  proof (rule antisym [OF r(4)])
    show "length ?hs \<le> length (data row')"
    proof (rule ccontr)
      assume "\<not> length ?hs \<le> length (data row')"
      then have lt: "length (data row') < length ?hs" by simp
      then have "?hs ! length (data row') \<in> fst ` set kvs" using assms(3) by simp
      with r(5) lt show False by blast
    qed
  qed
  have "data row' = map (\<lambda>h. the (map_of kvs h)) ?hs"
  proof (rule nth_equalityI)
    show "length (data row') = length (map (\<lambda>h. the (map_of kvs h)) ?hs)" using full by simp
  next
    fix i assume i: "i < length (data row')"
    then have ih: "i < length ?hs" using full by simp
    then have "?hs ! i \<in> fst ` set kvs" using assms(3) by simp
    then obtain v where v: "map_of kvs (?hs ! i) = Some v"
      by (metis map_of_eq_None_iff not_Some_eq)
    have "js_get (data row') i = v" using r(6) ih v by simp
    then show "data row' ! i = map (\<lambda>h. the (map_of kvs h)) ?hs ! i"
      using i ih v by (simp add: js_get_def)
  qed
  with r(2,3) have "row' = \<lparr>headers = ?hs, data = map (\<lambda>h. the (map_of kvs h)) ?hs, data_m1 = VUndef\<rparr>"
    by simp
  with r(1) len show ?thesis
    by (simp add: addObject_def object_entries_def)
qed

theorem addObject_appends_entry_witness:
  "addObject (CSV_new [''a'', ''b'']) (VObj [(''b'', VStr ''y''), (''a'', VStr ''x'')])
     = (None, (CSV_new [''a'', ''b''])
                \<lparr>entries := [EntryObj \<lparr>headers = [''a'', ''b''],
                                       data = [VStr ''x'', VStr ''y''],
                                       data_m1 = VUndef\<rparr>]\<rparr>)"
proof -
  let ?doc = "CSV_new [''a'', ''b'']" and ?kvs = "[(''b'', VStr ''y''), (''a'', VStr ''x'')]"
  have a: "distinct (csv_headers ?doc)" and b: "distinct (map fst ?kvs)"
    and c: "fst ` set ?kvs = set (csv_headers ?doc)"
    and d: "list_all (\<lambda>kv. \<not> (typeofObject (snd kv) \<and> \<not> isArray (snd kv))) ?kvs"
    by (auto simp: CSV_new_def)
  from addObject_appends_entry [OF a b c d] show ?thesis
    by (simp add: CSV_new_def)
qed

subsection \<open>Split without a map pattern, norm, and null headers\<close>

text \<open>
  A header object of type split without a map pattern stores the parts of the split
  cell, as an array, under its name, and touches no other field.
\<close>

theorem split_without_map:
  assumes "htype h = Split name delim" and "hmap h = None" and "name \<noteq> ''__proto__''"
  shows "\<exists>destObj'. putDataInObject E [VStr s] [Some h] destObj = Inr destObj' \<and>
           obj_get destObj' name = VArr (map partVal (re_split E (source delim) s)) \<and>
           (\<forall>key. key \<noteq> name \<longrightarrow> obj_get destObj' key = obj_get destObj key)"
  unfolding putDataInObject_single
  using assms by (simp add: putColumn_def Let_def obj_put_plain obj_get_obj_set)

theorem split_without_map_witness:
  "putDataInObject sampleEngine [VStr ''a,b'']
      [Some \<lparr>htype = Split ''s'' (RegExp '',''), hmap = None\<rparr>] []
     = Inr [(''s'', VArr [VStr ''a'', VStr ''b''])]"
proof -
  let ?h = "\<lparr>htype = Split ''s'' (RegExp '',''), hmap = None\<rparr>"
  have "htype ?h = Split ''s'' (RegExp '','')" and "hmap ?h = None" and "''s'' \<noteq> ''__proto__''"
    by simp_all
  from split_without_map [OF this, of sampleEngine "''a,b''" "[]"] obtain d where
    "putDataInObject sampleEngine [VStr ''a,b''] [Some ?h] [] = Inr d" by blast
  moreover have "putDataInObject sampleEngine [VStr ''a,b''] [Some ?h] []
       = Inr [(''s'', VArr [VStr ''a'', VStr ''b''])]"
    by (simp add: eval_put sampleEngine_def)
  ultimately show ?thesis by simp
qed

text \<open>A header object of type norm stores the cell as it is under its name.\<close>

theorem norm_copies_cell:
  assumes "htype h = Norm name" and "name \<noteq> ''__proto__''"
  shows "\<exists>destObj'. putDataInObject E [cell] [Some h] destObj = Inr destObj' \<and>
           obj_get destObj' name = cell \<and>
           (\<forall>key. key \<noteq> name \<longrightarrow> obj_get destObj' key = obj_get destObj key)"
  unfolding putDataInObject_single
  using assms by (simp add: putColumn_def obj_put_plain obj_get_obj_set)

theorem norm_copies_cell_witness:
  "putDataInObject sampleEngine [VArr [VStr ''a'', VStr ''b'']]
      [Some \<lparr>htype = Norm ''n'', hmap = None\<rparr>] []
     = Inr [(''n'', VArr [VStr ''a'', VStr ''b''])]"
proof -
  let ?h = "\<lparr>htype = Norm ''n'', hmap = None\<rparr>"
  have "htype ?h = Norm ''n''" and "''n'' \<noteq> ''__proto__''" by simp_all
  from norm_copies_cell [OF this, of sampleEngine "VArr [VStr ''a'', VStr ''b'']" "[]"] obtain d where
    "putDataInObject sampleEngine [VArr [VStr ''a'', VStr ''b'']] [Some ?h] [] = Inr d" by blast
  moreover have "putDataInObject sampleEngine [VArr [VStr ''a'', VStr ''b'']] [Some ?h] []
       = Inr [(''n'', VArr [VStr ''a'', VStr ''b''])]"
    by (simp add: eval_put)
  ultimately show ?thesis by simp
qed

lemma processHeaders_positions:
  "processHeaders E hs = Inr out \<Longrightarrow>
   length out = length hs \<and> (\<forall>i<length hs. (hs ! i = None) = (out ! i = None))"
proof (induction hs arbitrary: out)
  case Nil
  then show ?case by simp
next
  case (Cons h hs)
  show ?case
  proof (cases h)
    case None
    with Cons.prems obtain out' where o: "processHeaders E hs = Inr out'" "out = None # out'"
      by (auto split: sum.splits)
    with Cons.IH [OF o(1)] None show ?thesis by (auto simp: nth_Cons split: nat.splits)
  next
    case (Some t)
    with Cons.prems obtain obj out' where o: "processHeaders E hs = Inr out'" "out = Some obj # out'"
      by (auto split: sum.splits)
    with Cons.IH [OF o(1)] Some show ?thesis by (auto simp: nth_Cons split: nat.splits)
  qed
qed

lemma putDataInObject_all_null:
  "list_all (\<lambda>h. h = None) hs \<Longrightarrow> putDataInObject E cells hs destObj = Inr destObj"
  by (induction E cells hs destObj rule: putDataInObject.induct) simp_all

text \<open>
  The list \<^verbatim>\<open>processHeaders\<close> returns is as long as the list of templates and has
  \<^verbatim>\<open>null\<close> exactly where that list has it; \<^verbatim>\<open>putDataInObject\<close> passes over a cell
  whose header object is \<^verbatim>\<open>null\<close>, so that headers which are all \<^verbatim>\<open>null\<close> leave the
  record as it was.
\<close>

theorem null_header_skipped:
  "(\<forall>out. processHeaders E hs = Inr out \<longrightarrow>
      length out = length hs \<and> (\<forall>i<length hs. (hs ! i = None) = (out ! i = None)))
   \<and> (\<forall>cell cells rest destObj.
        putDataInObject E (cell # cells) (None # rest) destObj = putDataInObject E cells rest destObj)
   \<and> (\<forall>cells nulls destObj. list_all (\<lambda>h. h = None) nulls \<longrightarrow>
        putDataInObject E cells nulls destObj = Inr destObj)"
  using processHeaders_positions putDataInObject_all_null by auto

theorem null_header_skipped_witness:
  "processHeaders sampleEngine [None, Some ''n'']
     = Inr [None, Some \<lparr>htype = Norm ''n'', hmap = None\<rparr>]
   \<and> putDataInObject sampleEngine [VStr ''x'', VStr ''y'']
        [None, Some \<lparr>htype = Norm ''n'', hmap = None\<rparr>] []
       = Inr [(''n'', VStr ''y'')]
   \<and> putDataInObject sampleEngine [VStr ''x'', VStr ''y''] [None, None] [] = Inr []"
proof -
  note t = null_header_skipped [of sampleEngine "[None, Some ''n'']"]
  have p: "processHeaders sampleEngine [None, Some ''n'']
             = Inr [None, Some \<lparr>htype = Norm ''n'', hmap = None\<rparr>]"
    by (simp add: eval_tpl)
  from t have "putDataInObject sampleEngine [VStr ''x'', VStr ''y''] [None, None] [] = Inr []"
    by simp
  moreover from t have "putDataInObject sampleEngine (VStr ''x'' # [VStr ''y''])
        (None # [Some \<lparr>htype = Norm ''n'', hmap = None\<rparr>]) []
       = putDataInObject sampleEngine [VStr ''y''] [Some \<lparr>htype = Norm ''n'', hmap = None\<rparr>] []"
    by blast
  moreover have "putDataInObject sampleEngine [VStr ''y''] [Some \<lparr>htype = Norm ''n'', hmap = None\<rparr>] []
       = Inr [(''n'', VStr ''y'')]"
    by (simp add: eval_put)
  ultimately show ?thesis using p by simp
qed

end
